theory Spec2Isabelle
  imports Complex_Main
begin

section \<open>The board: class TicTacToeGame of app/game\_logic.py\<close>

text \<open>
  The board is a Python \<open>str\<close>, modelled as a \<open>string\<close>; one-character strings that the
  code reads out of the board are modelled as \<open>char\<close>. A raised exception is the
  \<open>Inl\<close> branch of a sum.
\<close>

datatype error = ValueError | IndexError

definition EMPTY :: char where
  "EMPTY = CHR '' ''"

definition PLAYER_X :: char where
  "PLAYER_X = CHR ''X''"

definition PLAYER_O :: char where
  "PLAYER_O = CHR ''O''"

definition WINNING_COMBINATIONS :: "(int \<times> int \<times> int) list" where
  "WINNING_COMBINATIONS =
     [(0, 1, 2), (3, 4, 5), (6, 7, 8),
      (0, 3, 6), (1, 4, 7), (2, 5, 8),
      (0, 4, 8), (2, 4, 6)]"

record TicTacToeGame =
  board :: string

text \<open>
  Python subscription \<open>xs[i]\<close>: an index below zero counts from the end, and an index
  outside the sequence raises IndexError.
\<close>

definition getitem :: "'a list \<Rightarrow> int \<Rightarrow> error + 'a" where
  "getitem xs i =
     (if 0 \<le> i \<and> i < int (length xs) then Inr (xs ! nat i)
      else if i < 0 \<and> - int (length xs) \<le> i then Inr (xs ! nat (int (length xs) + i))
      else Inl IndexError)"

text \<open>\<open>TicTacToeGame.__init__\<close>; \<open>None\<close> is the omitted argument.\<close>

definition TicTacToeGame_init :: "string option \<Rightarrow> error + TicTacToeGame" where
  "TicTacToeGame_init board_state =
     (case board_state of
        None \<Rightarrow> Inr \<lparr>board = replicate 9 EMPTY\<rparr>
      | Some s \<Rightarrow>
          if length s \<noteq> 9 \<or> \<not> list_all (\<lambda>c. c \<in> set [EMPTY, PLAYER_X, PLAYER_O]) s
          then Inl ValueError
          else Inr \<lparr>board = s\<rparr>)"

text \<open>
  \<open>is_valid_move\<close>: the conjunction is evaluated left to right, so the board is read
  only for a position in 0..8 and a player that is 'X' or 'O'.
\<close>

definition is_valid_move :: "TicTacToeGame \<Rightarrow> int \<Rightarrow> string \<Rightarrow> error + bool" where
  "is_valid_move self position player =
     (if \<not> (0 \<le> position \<and> position \<le> 8) then Inr False
      else if player \<notin> set [[PLAYER_X], [PLAYER_O]] then Inr False
      else case getitem (board self) position of
             Inl e \<Rightarrow> Inl e
           | Inr c \<Rightarrow> Inr (c = EMPTY))"

text \<open>
  \<open>make_move\<close> returns its boolean together with the object after the call. The
  slices \<open>board[:position]\<close> and \<open>board[position + 1:]\<close> are taken at a position that
  \<open>is_valid_move\<close> has found to lie in 0..8.
\<close>

definition make_move :: "TicTacToeGame \<Rightarrow> int \<Rightarrow> string \<Rightarrow> error + (bool \<times> TicTacToeGame)" where
  "make_move self position player =
     (case is_valid_move self position player of
        Inl e \<Rightarrow> Inl e
      | Inr ok \<Rightarrow>
          if \<not> ok then Inr (False, self)
          else Inr (True,
                 self\<lparr>board := take (nat position) (board self) @ player
                                  @ drop (nat (position + 1)) (board self)\<rparr>))"

text \<open>
  The loop of \<open>check_winner\<close> over the winning combinations, with its early return:
  \<open>Some w\<close> is the winner found at the first matching combination.
\<close>

fun check_combos :: "string \<Rightarrow> (int \<times> int \<times> int) list \<Rightarrow> error + char option" where
  "check_combos b [] = Inr None"
| "check_combos b ((c0, c1, c2) # rest) =
     (case getitem b c0 of
        Inl e \<Rightarrow> Inl e
      | Inr x0 \<Rightarrow>
          if x0 = EMPTY then check_combos b rest
          else (case getitem b c1 of
                  Inl e \<Rightarrow> Inl e
                | Inr x1 \<Rightarrow>
                    if x0 \<noteq> x1 then check_combos b rest
                    else (case getitem b c2 of
                            Inl e \<Rightarrow> Inl e
                          | Inr x2 \<Rightarrow>
                              if x1 \<noteq> x2 then check_combos b rest
                              else (case getitem b c0 of
                                      Inl e \<Rightarrow> Inl e
                                    | Inr w \<Rightarrow> Inr (Some w)))))"

definition check_winner :: "TicTacToeGame \<Rightarrow> error + (bool \<times> char option)" where
  "check_winner self =
     (case check_combos (board self) WINNING_COMBINATIONS of
        Inl e \<Rightarrow> Inl e
      | Inr (Some w) \<Rightarrow> Inr (True, Some w)
      | Inr None \<Rightarrow>
          if EMPTY \<notin> set (board self) then Inr (True, None)
          else Inr (False, None))"

definition get_valid_moves :: "TicTacToeGame \<Rightarrow> int list" where
  "get_valid_moves self =
     map (\<lambda>(i, cell). int i) (filter (\<lambda>(i, cell). cell = EMPTY) (enumerate 0 (board self)))"

definition get_board_state :: "TicTacToeGame \<Rightarrow> string" where
  "get_board_state self = board self"

text \<open>
  The data model's invariant: nine cells, each of them blank, 'X' or 'O'.
\<close>

definition valid_board :: "string \<Rightarrow> bool" where
  "valid_board s \<longleftrightarrow> length s = 9 \<and> set s \<subseteq> {EMPTY, PLAYER_X, PLAYER_O}"

section \<open>The search engine: class MinimaxAI of app/game\_logic.py\<close>

text \<open>
  Scores are Python numbers: the integers \<open>100 + depth\<close> and \<open>-100 - depth\<close>, the
  floats of the static evaluation, and the two infinities \<open>float('-inf')\<close> and
  \<open>float('inf')\<close> that start the loops. Finite scores are modelled as exact rationals
  (a float's rounding is not modelled), the infinities as two further values.
\<close>

datatype score = NegInf | Fin rat | PosInf

instantiation score :: linorder
begin

fun less_eq_score :: "score \<Rightarrow> score \<Rightarrow> bool" where
  "less_eq_score NegInf y = True"
| "less_eq_score (Fin x) NegInf = False"
| "less_eq_score (Fin x) (Fin y) = (x \<le> y)"
| "less_eq_score (Fin x) PosInf = True"
| "less_eq_score PosInf NegInf = False"
| "less_eq_score PosInf (Fin y) = False"
| "less_eq_score PosInf PosInf = True"

definition less_score :: "score \<Rightarrow> score \<Rightarrow> bool" where
  "less_score x y \<longleftrightarrow> x \<le> y \<and> \<not> y \<le> x"

instance
proof
  fix x y z :: score
  show "(x < y) = (x \<le> y \<and> \<not> y \<le> x)"
    by (simp add: less_score_def)
  show "x \<le> x"
    by (cases x) simp_all
  show "x \<le> y \<Longrightarrow> y \<le> z \<Longrightarrow> x \<le> z"
    by (cases x; cases y; cases z) simp_all
  show "x \<le> y \<Longrightarrow> y \<le> x \<Longrightarrow> x = y"
    by (cases x; cases y) simp_all
  show "x \<le> y \<or> y \<le> x"
    by (cases x; cases y) auto
qed

end

text \<open>\<open>score + x\<close> for a finite float \<open>x\<close>: an infinity stays what it is.\<close>

fun score_add :: "score \<Rightarrow> rat \<Rightarrow> score" where
  "score_add NegInf x = NegInf"
| "score_add (Fin s) x = Fin (s + x)"
| "score_add PosInf x = PosInf"

definition POSITION_WEIGHTS :: "int list" where
  "POSITION_WEIGHTS = [3, 2, 3,
                       2, 4, 2,
                       3, 2, 3]"

record MinimaxAI =
  difficulty :: string
  max_depth :: int
  randomization :: rat
  use_position_weights :: bool

text \<open>\<open>str.lower\<close> on the ASCII letters.\<close>

definition lower :: "string \<Rightarrow> string" where
  "lower s =
     map (\<lambda>c. if 65 \<le> (of_char c :: nat) \<and> (of_char c :: nat) \<le> 90
              then char_of (of_char c + (32 :: nat)) else c) s"

definition MinimaxAI_init :: "string \<Rightarrow> error + MinimaxAI" where
  "MinimaxAI_init difficulty_arg =
     (let d = lower difficulty_arg in
      if d \<notin> set [''easy'', ''medium'', ''hard''] then Inl ValueError
      else if d = ''easy'' then
        Inr \<lparr>difficulty = d, max_depth = 2, randomization = 4 / 10,
             use_position_weights = False\<rparr>
      else if d = ''medium'' then
        Inr \<lparr>difficulty = d, max_depth = 4, randomization = 2 / 10,
             use_position_weights = True\<rparr>
      else
        Inr \<lparr>difficulty = d, max_depth = 9, randomization = 0,
             use_position_weights = True\<rparr>)"

text \<open>
  \<open>_evaluate_position\<close>: the first loop runs over the winning combinations, the second
  over \<open>enumerate(POSITION_WEIGHTS)\<close>; both carry the running \<open>score\<close>. \<open>combo_line\<close>
  is the list \<open>[board[i] for i in combo]\<close>, \<open>score_line\<close> the chain of \<open>if\<close>/\<open>elif\<close> that
  updates the score from the three counts.
\<close>

definition combo_line :: "string \<Rightarrow> int \<times> int \<times> int \<Rightarrow> error + char list" where
  "combo_line b combo =
     (case combo of (c0, c1, c2) \<Rightarrow>
        (case getitem b c0 of
           Inl e \<Rightarrow> Inl e
         | Inr x0 \<Rightarrow>
             (case getitem b c1 of
                Inl e \<Rightarrow> Inl e
              | Inr x1 \<Rightarrow>
                  (case getitem b c2 of
                     Inl e \<Rightarrow> Inl e
                   | Inr x2 \<Rightarrow> Inr [x0, x1, x2]))))"

definition score_line :: "char list \<Rightarrow> rat \<Rightarrow> rat" where
  "score_line line score =
     (let ai_count = count_list line PLAYER_O;
          human_count = count_list line PLAYER_X;
          empty_count = count_list line EMPTY
      in if ai_count = 2 \<and> empty_count = 1 then score + 5
         else if human_count = 2 \<and> empty_count = 1 then score - 4
         else if ai_count = 1 \<and> empty_count = 2 then score + 1
         else if human_count = 1 \<and> empty_count = 2 then score - 1
         else score)"

fun score_combos :: "string \<Rightarrow> (int \<times> int \<times> int) list \<Rightarrow> rat \<Rightarrow> error + rat" where
  "score_combos b [] score = Inr score"
| "score_combos b (combo # rest) score =
     (case combo_line b combo of
        Inl e \<Rightarrow> Inl e
      | Inr line \<Rightarrow> score_combos b rest (score_line line score))"

fun score_weights :: "string \<Rightarrow> (nat \<times> int) list \<Rightarrow> rat \<Rightarrow> error + rat" where
  "score_weights b [] score = Inr score"
| "score_weights b ((pos, weight) # rest) score =
     (case getitem b (int pos) of
        Inl e \<Rightarrow> Inl e
      | Inr c \<Rightarrow>
          if c = PLAYER_O then score_weights b rest (score + 3 / 10 * of_int weight)
          else if c = PLAYER_X then score_weights b rest (score - 3 / 10 * of_int weight)
          else score_weights b rest score)"

definition evaluate_position :: "MinimaxAI \<Rightarrow> TicTacToeGame \<Rightarrow> error + score" where
  "evaluate_position self game =
     (let b = get_board_state game in
      case score_combos b WINNING_COMBINATIONS 0 of
        Inl e \<Rightarrow> Inl e
      | Inr score \<Rightarrow>
          if use_position_weights self then
            (case score_weights b (enumerate 0 POSITION_WEIGHTS) score of
               Inl e \<Rightarrow> Inl e
             | Inr score' \<Rightarrow> Inr (Fin score'))
          else Inr (Fin score))"

text \<open>
  The two loops of \<open>_minimax\<close> over the valid moves. \<open>child move alpha\<close> (in the
  minimizing loop \<open>child move beta\<close>) is the loop body up to the recursive call: clone
  the board, make the move, search the clone. The loops keep the running extremum and
  the bound they tighten, and \<open>break\<close> as soon as \<open>beta \<le> alpha\<close>.
\<close>

fun max_loop ::
  "(int \<Rightarrow> score \<Rightarrow> error + score) \<Rightarrow> int list \<Rightarrow> score \<Rightarrow> score \<Rightarrow> score \<Rightarrow> error + score"
where
  "max_loop child [] max_score alpha beta = Inr max_score"
| "max_loop child (move # rest) max_score alpha beta =
     (case child move alpha of
        Inl e \<Rightarrow> Inl e
      | Inr score \<Rightarrow>
          if beta \<le> max alpha score then Inr (max max_score score)
          else max_loop child rest (max max_score score) (max alpha score) beta)"

fun min_loop ::
  "(int \<Rightarrow> score \<Rightarrow> error + score) \<Rightarrow> int list \<Rightarrow> score \<Rightarrow> score \<Rightarrow> score \<Rightarrow> error + score"
where
  "min_loop child [] min_score alpha beta = Inr min_score"
| "min_loop child (move # rest) min_score alpha beta =
     (case child move beta of
        Inl e \<Rightarrow> Inl e
      | Inr score \<Rightarrow>
          if min beta score \<le> alpha then Inr (min min_score score)
          else min_loop child rest (min min_score score) alpha (min beta score))"

lemma max_loop_cong [fundef_cong]:
  "moves = moves' \<Longrightarrow> (\<And>mv a. mv \<in> set moves' \<Longrightarrow> child mv a = child' mv a) \<Longrightarrow>
   max_loop child moves m alpha beta = max_loop child' moves' m alpha beta"
  by (induction moves' arbitrary: moves m alpha) (auto split: sum.splits)

lemma min_loop_cong [fundef_cong]:
  "moves = moves' \<Longrightarrow> (\<And>mv b. mv \<in> set moves' \<Longrightarrow> child mv b = child' mv b) \<Longrightarrow>
   min_loop child moves m alpha beta = min_loop child' moves' m alpha beta"
  by (induction moves' arbitrary: moves m beta) (auto split: sum.splits)

text \<open>The body of both loops: \<open>TicTacToeGame(game.board)\<close>, then \<open>make_move\<close> on the clone.\<close>

definition try_move :: "TicTacToeGame \<Rightarrow> int \<Rightarrow> char \<Rightarrow> error + TicTacToeGame" where
  "try_move game move player =
     (case TicTacToeGame_init (Some (board game)) of
        Inl e \<Rightarrow> Inl e
      | Inr game_copy \<Rightarrow>
          (case make_move game_copy move [player] of
             Inl e \<Rightarrow> Inl e
           | Inr (ok, game_copy') \<Rightarrow> Inr game_copy'))"

subsection \<open>Facts about boards that the termination of the search rests on\<close>

lemma init_Some_iff:
  "TicTacToeGame_init (Some s) = Inr g \<longleftrightarrow> valid_board s \<and> g = \<lparr>board = s\<rparr>"
  by (auto simp: TicTacToeGame_init_def valid_board_def list_all_iff)

lemma init_Some_valid:
  "valid_board s \<Longrightarrow> TicTacToeGame_init (Some s) = Inr \<lparr>board = s\<rparr>"
  by (simp add: init_Some_iff)

lemma getitem_in_range:
  "0 \<le> i \<Longrightarrow> i < int (length xs) \<Longrightarrow> getitem xs i = Inr (xs ! nat i)"
  by (simp add: getitem_def)

lemma get_valid_moves_iff:
  "mv \<in> set (get_valid_moves g) \<longleftrightarrow>
     0 \<le> mv \<and> mv < int (length (board g)) \<and> board g ! nat mv = EMPTY"
proof
  assume "mv \<in> set (get_valid_moves g)"
  then obtain i c where "(i, c) \<in> set (enumerate 0 (board g))" "c = EMPTY" "mv = int i"
    by (auto simp: get_valid_moves_def)
  then show "0 \<le> mv \<and> mv < int (length (board g)) \<and> board g ! nat mv = EMPTY"
    by (auto simp: in_set_enumerate_eq)
next
  assume a: "0 \<le> mv \<and> mv < int (length (board g)) \<and> board g ! nat mv = EMPTY"
  then have "(nat mv, EMPTY) \<in> set (enumerate 0 (board g))"
    by (auto simp: in_set_enumerate_eq)
  then have "int (nat mv) \<in> set (get_valid_moves g)"
    unfolding get_valid_moves_def by force
  with a show "mv \<in> set (get_valid_moves g)" by simp
qed

lemma is_valid_move_valid:
  assumes "valid_board (board g)"
  shows "is_valid_move g position player =
     Inr (0 \<le> position \<and> position \<le> 8 \<and> (player = [PLAYER_X] \<or> player = [PLAYER_O])
          \<and> board g ! nat position = EMPTY)"
  using assms by (auto simp: is_valid_move_def valid_board_def getitem_def)

lemma make_move_valid:
  assumes "valid_board (board g)"
  shows "make_move g position player =
     (if 0 \<le> position \<and> position \<le> 8 \<and> (player = [PLAYER_X] \<or> player = [PLAYER_O])
          \<and> board g ! nat position = EMPTY
      then Inr (True, g\<lparr>board := (board g)[nat position := hd player]\<rparr>)
      else Inr (False, g))"
proof -
  have "take (nat position) (board g) @ [p] @ drop (nat (position + 1)) (board g)
        = (board g)[nat position := p]"
    if "0 \<le> position" "position \<le> 8" for p
  proof -
    have "nat position < length (board g)"
      using assms that by (simp add: valid_board_def)
    moreover have "nat (position + 1) = Suc (nat position)"
      using that by simp
    ultimately show ?thesis
      by (simp add: upd_conv_take_nth_drop)
  qed
  then show ?thesis
    using assms by (auto simp: make_move_def is_valid_move_valid)
qed

text \<open>The number of blank cells of a board.\<close>

definition empties :: "string \<Rightarrow> nat" where
  "empties b = count_list b EMPTY"

lemma try_move_valid:
  assumes "valid_board (board g)" "mv \<in> set (get_valid_moves g)" "p = PLAYER_X \<or> p = PLAYER_O"
  shows "try_move g mv p = Inr \<lparr>board = (board g)[nat mv := p]\<rparr>"
proof -
  have "0 \<le> mv" "mv \<le> 8" "board g ! nat mv = EMPTY"
    using assms by (auto simp: get_valid_moves_iff valid_board_def)
  then show ?thesis
    using assms(1,3) by (auto simp: try_move_def init_Some_valid make_move_valid)
qed

lemma try_move_Inr:
  assumes "try_move g mv p = Inr g'"
  shows "valid_board (board g)"
  using assms by (auto simp: try_move_def init_Some_iff split: sum.splits)

lemma count_list_update:
  "i < length xs \<Longrightarrow> xs ! i = a \<Longrightarrow> b \<noteq> a \<Longrightarrow>
   Suc (count_list (xs[i := b]) a) = count_list xs a"
  by (induction xs arbitrary: i) (auto split: nat.splits)

lemma empties_try_move:
  assumes "try_move g mv p = Inr g'" "mv \<in> set (get_valid_moves g)"
    "p = PLAYER_X \<or> p = PLAYER_O"
  shows "empties (board g') < empties (board g)"
proof -
  have v: "valid_board (board g)" using assms(1) by (rule try_move_Inr)
  have g': "g' = \<lparr>board = (board g)[nat mv := p]\<rparr>"
    using try_move_valid [OF v assms(2,3)] assms(1) by simp
  have "nat mv < length (board g)" "board g ! nat mv = EMPTY"
    using assms(2) by (auto simp: get_valid_moves_iff)
  moreover have "p \<noteq> EMPTY"
    using assms(3) by (auto simp: EMPTY_def PLAYER_X_def PLAYER_O_def)
  ultimately have "Suc (empties ((board g)[nat mv := p])) = empties (board g)"
    unfolding empties_def by (rule count_list_update)
  then show ?thesis by (simp add: g')
qed

text \<open>
  \<open>_minimax\<close>. The recursion ends because every recursive call is on a clone with one
  blank cell fewer: the clone is built from a board the constructor accepts, and the
  move comes from \<open>get_valid_moves\<close>.
\<close>

function minimax ::
  "MinimaxAI \<Rightarrow> TicTacToeGame \<Rightarrow> int \<Rightarrow> score \<Rightarrow> score \<Rightarrow> bool \<Rightarrow> error + score"
where
  "minimax self game depth alpha beta is_maximizing =
     (case check_winner game of
        Inl e \<Rightarrow> Inl e
      | Inr (game_over, winner) \<Rightarrow>
          if game_over then
            (if winner = Some PLAYER_O then Inr (Fin (of_int (100 + depth)))
             else if winner = Some PLAYER_X then Inr (Fin (of_int (- 100 - depth)))
             else Inr (Fin 0))
          else if depth = 0 then evaluate_position self game
          else if is_maximizing then
            max_loop
              (\<lambda>move alpha.
                 case try_move game move PLAYER_O of
                   Inl e \<Rightarrow> Inl e
                 | Inr game_copy \<Rightarrow> minimax self game_copy (depth - 1) alpha beta False)
              (get_valid_moves game) NegInf alpha beta
          else
            min_loop
              (\<lambda>move beta.
                 case try_move game move PLAYER_X of
                   Inl e \<Rightarrow> Inl e
                 | Inr game_copy \<Rightarrow> minimax self game_copy (depth - 1) alpha beta True)
              (get_valid_moves game) PosInf alpha beta)"
  by pat_completeness auto
termination
  by (relation "measure (\<lambda>(self, game, depth, alpha, beta, m). empties (board game))")
    (auto intro: empties_try_move)

declare minimax.simps [simp del]

text \<open>
  The loop of \<open>get_ai_move\<close> over the valid moves; \<open>score_of move\<close> is the loop body up
  to the comparison (clone, move, search, position weight).
\<close>

fun best_loop ::
  "(int \<Rightarrow> error + score) \<Rightarrow> int list \<Rightarrow> score \<Rightarrow> int list \<Rightarrow> error + int list"
where
  "best_loop score_of [] best_score best_moves = Inr best_moves"
| "best_loop score_of (move # rest) best_score best_moves =
     (case score_of move of
        Inl e \<Rightarrow> Inl e
      | Inr score \<Rightarrow>
          if score > best_score then best_loop score_of rest score [move]
          else if score = best_score then best_loop score_of rest best_score (best_moves @ [move])
          else best_loop score_of rest best_score best_moves)"

definition move_score :: "MinimaxAI \<Rightarrow> TicTacToeGame \<Rightarrow> int \<Rightarrow> error + score" where
  "move_score self game move =
     (case try_move game move PLAYER_O of
        Inl e \<Rightarrow> Inl e
      | Inr game_copy \<Rightarrow>
          (case minimax self game_copy (max_depth self) NegInf PosInf False of
             Inl e \<Rightarrow> Inl e
           | Inr score \<Rightarrow>
               if use_position_weights self then
                 (case getitem POSITION_WEIGHTS move of
                    Inl e \<Rightarrow> Inl e
                  | Inr w \<Rightarrow> Inr (score_add score (of_int w * (1 / 10))))
               else Inr score))"

text \<open>
  The random source is explicit: \<open>u\<close> is the value of \<open>random.random()\<close>, and
  \<open>random.choice\<close> returns the element at the drawn index \<open>k\<close>, taken within the
  sequence's length; on an empty sequence it raises IndexError.
\<close>

definition random_choice :: "nat \<Rightarrow> 'a list \<Rightarrow> error + 'a" where
  "random_choice k xs = (if xs = [] then Inl IndexError else Inr (xs ! (k mod length xs)))"

definition get_ai_move :: "MinimaxAI \<Rightarrow> TicTacToeGame \<Rightarrow> rat \<Rightarrow> nat \<Rightarrow> error + int option" where
  "get_ai_move self game u k =
     (let valid_moves = get_valid_moves game in
      if valid_moves = [] then Inr None
      else if u < randomization self then
        (case random_choice k valid_moves of
           Inl e \<Rightarrow> Inl e
         | Inr move \<Rightarrow> Inr (Some move))
      else
        (case best_loop (move_score self game) valid_moves NegInf [] of
           Inl e \<Rightarrow> Inl e
         | Inr best_moves \<Rightarrow>
             (case random_choice k best_moves of
                Inl e \<Rightarrow> Inl e
              | Inr move \<Rightarrow> Inr (Some move))))"

section \<open>The search without the cut-off\<close>

text \<open>
  The recursion of \<open>_minimax\<close> with the test \<open>if beta <= alpha: break\<close> taken out of both
  loops and nothing else changed: the bounds are still updated and passed down.
\<close>

fun max_loop_nocut ::
  "(int \<Rightarrow> score \<Rightarrow> error + score) \<Rightarrow> int list \<Rightarrow> score \<Rightarrow> score \<Rightarrow> score \<Rightarrow> error + score"
where
  "max_loop_nocut child [] max_score alpha beta = Inr max_score"
| "max_loop_nocut child (move # rest) max_score alpha beta =
     (case child move alpha of
        Inl e \<Rightarrow> Inl e
      | Inr score \<Rightarrow>
          max_loop_nocut child rest (max max_score score) (max alpha score) beta)"

fun min_loop_nocut ::
  "(int \<Rightarrow> score \<Rightarrow> error + score) \<Rightarrow> int list \<Rightarrow> score \<Rightarrow> score \<Rightarrow> score \<Rightarrow> error + score"
where
  "min_loop_nocut child [] min_score alpha beta = Inr min_score"
| "min_loop_nocut child (move # rest) min_score alpha beta =
     (case child move beta of
        Inl e \<Rightarrow> Inl e
      | Inr score \<Rightarrow>
          min_loop_nocut child rest (min min_score score) alpha (min beta score))"

lemma max_loop_nocut_cong [fundef_cong]:
  "moves = moves' \<Longrightarrow> (\<And>mv a. mv \<in> set moves' \<Longrightarrow> child mv a = child' mv a) \<Longrightarrow>
   max_loop_nocut child moves m alpha beta = max_loop_nocut child' moves' m alpha beta"
  by (induction moves' arbitrary: moves m alpha) (auto split: sum.splits)

lemma min_loop_nocut_cong [fundef_cong]:
  "moves = moves' \<Longrightarrow> (\<And>mv b. mv \<in> set moves' \<Longrightarrow> child mv b = child' mv b) \<Longrightarrow>
   min_loop_nocut child moves m alpha beta = min_loop_nocut child' moves' m alpha beta"
  by (induction moves' arbitrary: moves m beta) (auto split: sum.splits)

function minimax_nocut ::
  "MinimaxAI \<Rightarrow> TicTacToeGame \<Rightarrow> int \<Rightarrow> score \<Rightarrow> score \<Rightarrow> bool \<Rightarrow> error + score"
where
  "minimax_nocut self game depth alpha beta is_maximizing =
     (case check_winner game of
        Inl e \<Rightarrow> Inl e
      | Inr (game_over, winner) \<Rightarrow>
          if game_over then
            (if winner = Some PLAYER_O then Inr (Fin (of_int (100 + depth)))
             else if winner = Some PLAYER_X then Inr (Fin (of_int (- 100 - depth)))
             else Inr (Fin 0))
          else if depth = 0 then evaluate_position self game
          else if is_maximizing then
            max_loop_nocut
              (\<lambda>move alpha.
                 case try_move game move PLAYER_O of
                   Inl e \<Rightarrow> Inl e
                 | Inr game_copy \<Rightarrow> minimax_nocut self game_copy (depth - 1) alpha beta False)
              (get_valid_moves game) NegInf alpha beta
          else
            min_loop_nocut
              (\<lambda>move beta.
                 case try_move game move PLAYER_X of
                   Inl e \<Rightarrow> Inl e
                 | Inr game_copy \<Rightarrow> minimax_nocut self game_copy (depth - 1) alpha beta True)
              (get_valid_moves game) PosInf alpha beta)"
  by pat_completeness auto
termination
  by (relation "measure (\<lambda>(self, game, depth, alpha, beta, m). empties (board game))")
    (auto intro: empties_try_move)

declare minimax_nocut.simps [simp del]

text \<open>
  What a search with the window \<open>(a, b)\<close> may return for a position of value \<open>v\<close>: the
  value itself when it lies inside the window, and otherwise a bound on the value on
  the side where the window was left.
\<close>

definition within_window :: "score \<Rightarrow> score \<Rightarrow> score \<Rightarrow> score \<Rightarrow> bool" where
  "within_window a b r v \<longleftrightarrow>
     (if r \<le> a then v \<le> r else if b \<le> r then r \<le> v else r = v)"

section \<open>Notions of the specification\<close>

text \<open>A winning combination is fully occupied by \<open>p\<close>.\<close>

definition line_won :: "string \<Rightarrow> int \<times> int \<times> int \<Rightarrow> char \<Rightarrow> bool" where
  "line_won b combo p =
     (case combo of (i, j, k) \<Rightarrow> b ! nat i = p \<and> b ! nat j = p \<and> b ! nat k = p)"

text \<open>The three positions of a combination lie on the board.\<close>

definition combo_in_range :: "int \<times> int \<times> int \<Rightarrow> bool" where
  "combo_in_range combo = (case combo of (i, j, k) \<Rightarrow> 0 \<le> i \<and> i < 9 \<and> 0 \<le> j \<and> j < 9 \<and> 0 \<le> k \<and> k < 9)"

text \<open>A winning combination is fully occupied by one of the two players.\<close>

definition some_player_won :: "string \<Rightarrow> int \<times> int \<times> int \<Rightarrow> bool" where
  "some_player_won b combo \<longleftrightarrow> line_won b combo PLAYER_X \<or> line_won b combo PLAYER_O"

text \<open>
  The static evaluation as the specification words it: a value for each winning
  combination from the numbers of 'O', 'X' and blank cells on it, and, with position
  weights, 0.3 times the weight of every cell of 'O' minus 0.3 times the weight of
  every cell of 'X'; the weights are 3 at the corners, 2 at the edges and 4 at the
  center.
\<close>

definition count_cells :: "string \<Rightarrow> int \<times> int \<times> int \<Rightarrow> char \<Rightarrow> nat" where
  "count_cells b combo p =
     (case combo of (i, j, k) \<Rightarrow> length (filter (\<lambda>c. c = p) [b ! nat i, b ! nat j, b ! nat k]))"

definition line_value :: "string \<Rightarrow> int \<times> int \<times> int \<Rightarrow> rat" where
  "line_value b combo =
     (if count_cells b combo PLAYER_O = 2 \<and> count_cells b combo EMPTY = 1 then 5
      else if count_cells b combo PLAYER_X = 2 \<and> count_cells b combo EMPTY = 1 then - 4
      else if count_cells b combo PLAYER_O = 1 \<and> count_cells b combo EMPTY = 2 then 1
      else if count_cells b combo PLAYER_X = 1 \<and> count_cells b combo EMPTY = 2 then - 1
      else 0)"

definition position_weight :: "nat \<Rightarrow> rat" where
  "position_weight p = (if p = 4 then 4 else if p \<in> {0, 2, 6, 8} then 3 else 2)"

definition cell_value :: "string \<Rightarrow> nat \<Rightarrow> rat" where
  "cell_value b p =
     (if b ! p = PLAYER_O then 3 / 10 * position_weight p
      else if b ! p = PLAYER_X then - (3 / 10 * position_weight p)
      else 0)"

definition spec_static_evaluation :: "bool \<Rightarrow> string \<Rightarrow> rat" where
  "spec_static_evaluation use_weights b =
     (\<Sum>combo\<leftarrow>WINNING_COMBINATIONS. line_value b combo)
     + (if use_weights then (\<Sum>p\<leftarrow>[0..<9]. cell_value b p) else 0)"

text \<open>What one step of the loop over \<open>enumerate(POSITION_WEIGHTS)\<close> adds to the score.\<close>

definition weighted_cell :: "string \<Rightarrow> nat \<times> int \<Rightarrow> rat" where
  "weighted_cell b pw =
     (if b ! fst pw = PLAYER_O then 3 / 10 * of_int (snd pw)
      else if b ! fst pw = PLAYER_X then - (3 / 10 * of_int (snd pw))
      else 0)"

text \<open>The board after a legal move, as the search builds it on a clone.\<close>

definition place :: "TicTacToeGame \<Rightarrow> int \<Rightarrow> char \<Rightarrow> TicTacToeGame" where
  "place g mv p = \<lparr>board = (board g)[nat mv := p]\<rparr>"

section \<open>The search on a store of game objects\<close>

text \<open>
  A \<open>TicTacToeGame\<close> is a mutable object and \<open>get_ai_move\<close> is given a reference to the
  caller's one. Here the objects live in a store: a reference is an index into the list
  of all objects allocated so far, \<open>TicTacToeGame(...)\<close> appends a new object, and
  \<open>make_move\<close> overwrites the object it is called on. The store is passed through the
  search and returned with the result. The recursion is bounded by a fuel counter that
  every call of \<open>_minimax\<close> decrements; \<open>None\<close> means that the fuel ran out.
\<close>

type_synonym ref = nat

type_synonym store = "TicTacToeGame list"

definition new_game :: "store \<Rightarrow> string option \<Rightarrow> error + (ref \<times> store)" where
  "new_game h board_state =
     (case TicTacToeGame_init board_state of
        Inl e \<Rightarrow> Inl e
      | Inr obj \<Rightarrow> Inr (length h, h @ [obj]))"

definition make_move_at :: "store \<Rightarrow> ref \<Rightarrow> int \<Rightarrow> string \<Rightarrow> error + (bool \<times> store)" where
  "make_move_at h self position player =
     (case make_move (h ! self) position player of
        Inl e \<Rightarrow> Inl e
      | Inr (ok, obj) \<Rightarrow> Inr (ok, h[self := obj]))"

text \<open>\<open>game_copy = TicTacToeGame(game.board); game_copy.make_move(move, player)\<close>.\<close>

definition clone_and_move :: "store \<Rightarrow> ref \<Rightarrow> int \<Rightarrow> char \<Rightarrow> error + (ref \<times> store)" where
  "clone_and_move h game move player =
     (case new_game h (Some (board (h ! game))) of
        Inl e \<Rightarrow> Inl e
      | Inr (game_copy, h1) \<Rightarrow>
          (case make_move_at h1 game_copy move [player] of
             Inl e \<Rightarrow> Inl e
           | Inr (ok, h2) \<Rightarrow> Inr (game_copy, h2)))"

text \<open>
  The loops of \<open>_minimax\<close> on the store. \<open>search h game_copy alpha\<close> is the recursive call
  on the clone; it returns the store it leaves behind.
\<close>

fun max_loop_st ::
  "(store \<Rightarrow> ref \<Rightarrow> score \<Rightarrow> (error + (score \<times> store)) option) \<Rightarrow> store \<Rightarrow> ref
     \<Rightarrow> int list \<Rightarrow> score \<Rightarrow> score \<Rightarrow> score \<Rightarrow> (error + (score \<times> store)) option"
where
  "max_loop_st search h game [] max_score alpha beta = Some (Inr (max_score, h))"
| "max_loop_st search h game (move # rest) max_score alpha beta =
     (case clone_and_move h game move PLAYER_O of
        Inl e \<Rightarrow> Some (Inl e)
      | Inr (game_copy, h2) \<Rightarrow>
          (case search h2 game_copy alpha of
             None \<Rightarrow> None
           | Some (Inl e) \<Rightarrow> Some (Inl e)
           | Some (Inr (score, h3)) \<Rightarrow>
               if beta \<le> max alpha score then Some (Inr (max max_score score, h3))
               else max_loop_st search h3 game rest
                      (max max_score score) (max alpha score) beta))"

fun min_loop_st ::
  "(store \<Rightarrow> ref \<Rightarrow> score \<Rightarrow> (error + (score \<times> store)) option) \<Rightarrow> store \<Rightarrow> ref
     \<Rightarrow> int list \<Rightarrow> score \<Rightarrow> score \<Rightarrow> score \<Rightarrow> (error + (score \<times> store)) option"
where
  "min_loop_st search h game [] min_score alpha beta = Some (Inr (min_score, h))"
| "min_loop_st search h game (move # rest) min_score alpha beta =
     (case clone_and_move h game move PLAYER_X of
        Inl e \<Rightarrow> Some (Inl e)
      | Inr (game_copy, h2) \<Rightarrow>
          (case search h2 game_copy beta of
             None \<Rightarrow> None
           | Some (Inl e) \<Rightarrow> Some (Inl e)
           | Some (Inr (score, h3)) \<Rightarrow>
               if min beta score \<le> alpha then Some (Inr (min min_score score, h3))
               else min_loop_st search h3 game rest
                      (min min_score score) alpha (min beta score)))"

primrec minimax_st ::
  "nat \<Rightarrow> MinimaxAI \<Rightarrow> store \<Rightarrow> ref \<Rightarrow> int \<Rightarrow> score \<Rightarrow> score \<Rightarrow> bool
     \<Rightarrow> (error + (score \<times> store)) option"
where
  "minimax_st 0 self h game depth alpha beta is_maximizing = None"
| "minimax_st (Suc fuel) self h game depth alpha beta is_maximizing =
     (case check_winner (h ! game) of
        Inl e \<Rightarrow> Some (Inl e)
      | Inr (game_over, winner) \<Rightarrow>
          if game_over then
            (if winner = Some PLAYER_O then Some (Inr (Fin (of_int (100 + depth)), h))
             else if winner = Some PLAYER_X then Some (Inr (Fin (of_int (- 100 - depth)), h))
             else Some (Inr (Fin 0, h)))
          else if depth = 0 then
            (case evaluate_position self (h ! game) of
               Inl e \<Rightarrow> Some (Inl e)
             | Inr score \<Rightarrow> Some (Inr (score, h)))
          else if is_maximizing then
            max_loop_st
              (\<lambda>h2 game_copy alpha. minimax_st fuel self h2 game_copy (depth - 1) alpha beta False)
              h game (get_valid_moves (h ! game)) NegInf alpha beta
          else
            min_loop_st
              (\<lambda>h2 game_copy beta. minimax_st fuel self h2 game_copy (depth - 1) alpha beta True)
              h game (get_valid_moves (h ! game)) PosInf alpha beta)"

text \<open>The position weight that \<open>get_ai_move\<close> adds to the score of a move.\<close>

definition add_position_weight :: "MinimaxAI \<Rightarrow> int \<Rightarrow> score \<Rightarrow> error + score" where
  "add_position_weight self move score =
     (if use_position_weights self then
        (case getitem POSITION_WEIGHTS move of
           Inl e \<Rightarrow> Inl e
         | Inr w \<Rightarrow> Inr (score_add score (of_int w * (1 / 10))))
      else Inr score)"

fun best_loop_st ::
  "(store \<Rightarrow> ref \<Rightarrow> (error + (score \<times> store)) option) \<Rightarrow> MinimaxAI \<Rightarrow> store \<Rightarrow> ref
     \<Rightarrow> int list \<Rightarrow> score \<Rightarrow> int list \<Rightarrow> (error + (int list \<times> store)) option"
where
  "best_loop_st search self h game [] best_score best_moves = Some (Inr (best_moves, h))"
| "best_loop_st search self h game (move # rest) best_score best_moves =
     (case clone_and_move h game move PLAYER_O of
        Inl e \<Rightarrow> Some (Inl e)
      | Inr (game_copy, h2) \<Rightarrow>
          (case search h2 game_copy of
             None \<Rightarrow> None
           | Some (Inl e) \<Rightarrow> Some (Inl e)
           | Some (Inr (score0, h3)) \<Rightarrow>
               (case add_position_weight self move score0 of
                  Inl e \<Rightarrow> Some (Inl e)
                | Inr score \<Rightarrow>
                    if score > best_score then
                      best_loop_st search self h3 game rest score [move]
                    else if score = best_score then
                      best_loop_st search self h3 game rest best_score (best_moves @ [move])
                    else best_loop_st search self h3 game rest best_score best_moves)))"

definition get_ai_move_st ::
  "nat \<Rightarrow> MinimaxAI \<Rightarrow> store \<Rightarrow> ref \<Rightarrow> rat \<Rightarrow> nat \<Rightarrow> (error + (int option \<times> store)) option"
where
  "get_ai_move_st fuel self h game u k =
     (let valid_moves = get_valid_moves (h ! game) in
      if valid_moves = [] then Some (Inr (None, h))
      else if u < randomization self then
        (case random_choice k valid_moves of
           Inl e \<Rightarrow> Some (Inl e)
         | Inr move \<Rightarrow> Some (Inr (Some move, h)))
      else
        (case best_loop_st
                (\<lambda>h2 game_copy. minimax_st fuel self h2 game_copy (max_depth self) NegInf PosInf False)
                self h game valid_moves NegInf [] of
           None \<Rightarrow> None
         | Some (Inl e) \<Rightarrow> Some (Inl e)
         | Some (Inr (best_moves, h')) \<Rightarrow>
             (case random_choice k best_moves of
                Inl e \<Rightarrow> Some (Inl e)
              | Inr move \<Rightarrow> Some (Inr (Some move, h')))))"

section \<open>Play against the search at the hard level\<close>

text \<open>The player who moves after \<open>p\<close>.\<close>

definition other :: "char \<Rightarrow> char" where
  "other p = (if p = PLAYER_X then PLAYER_O else PLAYER_X)"

text \<open>
  Legal alternating play from the empty board, 'X' first: \<open>reachable g p\<close> says that
  the game \<open>g\<close> can arise with \<open>p\<close> to move. A move is made by \<open>make_move\<close> and only
  while \<open>check_winner\<close> says that the game is not over.
\<close>

inductive reachable :: "TicTacToeGame \<Rightarrow> char \<Rightarrow> bool" where
  start: "reachable \<lparr>board = replicate 9 EMPTY\<rparr> PLAYER_X"
| move: "reachable g p \<Longrightarrow> check_winner g = Inr (False, None)
    \<Longrightarrow> make_move g position [p] = Inr (True, g') \<Longrightarrow> reachable g' (other p)"

text \<open>
  'X' can win on the next ply: the game is not over and some valid move of 'X' ends it
  with 'X' as the winner.
\<close>

definition x_wins_next :: "TicTacToeGame \<Rightarrow> bool" where
  "x_wins_next g \<longleftrightarrow>
     check_winner g = Inr (False, None) \<and>
     list_ex (\<lambda>mv. check_winner (place g mv PLAYER_X) = Inr (True, Some PLAYER_X))
       (get_valid_moves g)"

text \<open>
  A game of the human 'X' against the search, as the route that serves a move runs it:
  the human makes any valid move; if the game is not over, \<open>get_ai_move\<close> chooses the
  move of 'O', for any outcome \<open>u\<close> in [0, 1) of \<open>random.random()\<close> and any index \<open>k\<close>
  drawn by \<open>random.choice\<close>.
\<close>

inductive ai_play :: "MinimaxAI \<Rightarrow> TicTacToeGame \<Rightarrow> char \<Rightarrow> bool" for ai where
  start: "ai_play ai \<lparr>board = replicate 9 EMPTY\<rparr> PLAYER_X"
| human: "ai_play ai g PLAYER_X \<Longrightarrow> check_winner g = Inr (False, None)
    \<Longrightarrow> make_move g position [PLAYER_X] = Inr (True, g') \<Longrightarrow> ai_play ai g' PLAYER_O"
| machine: "ai_play ai g PLAYER_O \<Longrightarrow> check_winner g = Inr (False, None)
    \<Longrightarrow> 0 \<le> u \<Longrightarrow> u < 1 \<Longrightarrow> get_ai_move ai g u k = Inr (Some position)
    \<Longrightarrow> make_move g position [PLAYER_O] = Inr (True, g') \<Longrightarrow> ai_play ai g' PLAYER_X"

text \<open>
  'O' can avoid losing from \<open>g\<close> with \<open>p\<close> to move: the game is over and 'X' has not
  won, or 'X' is to move and every move keeps it so, or 'O' is to move and some move
  keeps it so.
\<close>

inductive o_safe :: "TicTacToeGame \<Rightarrow> char \<Rightarrow> bool" where
  over: "check_winner g = Inr (True, w) \<Longrightarrow> w \<noteq> Some PLAYER_X \<Longrightarrow> o_safe g p"
| x_moves: "check_winner g = Inr (False, None)
    \<Longrightarrow> \<forall>mv \<in> set (get_valid_moves g). o_safe (place g mv PLAYER_X) PLAYER_O
    \<Longrightarrow> o_safe g PLAYER_X"
| o_moves: "check_winner g = Inr (False, None) \<Longrightarrow> mv \<in> set (get_valid_moves g)
    \<Longrightarrow> o_safe (place g mv PLAYER_O) PLAYER_X \<Longrightarrow> o_safe g PLAYER_O"

text \<open>The score of a position in the search without the cut-off.\<close>

definition search_value :: "MinimaxAI \<Rightarrow> TicTacToeGame \<Rightarrow> int \<Rightarrow> bool \<Rightarrow> score" where
  "search_value self g depth is_maximizing =
     (case minimax_nocut self g depth NegInf PosInf is_maximizing of
        Inl e \<Rightarrow> NegInf
      | Inr v \<Rightarrow> v)"

text \<open>
  A way for 'O' to play that never loses, used as a certificate: complete an own
  line, else block a line of 'X', else follow a small table, else take the first
  blank cell among center, corners, edges.
\<close>

fun completes :: "string \<Rightarrow> char \<Rightarrow> (int \<times> int \<times> int) list \<Rightarrow> int option" where
  "completes b p [] = None"
| "completes b p ((i, j, k) # rest) =
     (if b ! nat i = EMPTY \<and> b ! nat j = p \<and> b ! nat k = p then Some i
      else if b ! nat i = p \<and> b ! nat j = EMPTY \<and> b ! nat k = p then Some j
      else if b ! nat i = p \<and> b ! nat j = p \<and> b ! nat k = EMPTY then Some k
      else completes b p rest)"

definition o_reply_table :: "(string \<times> int) list" where
  "o_reply_table =
     [(''X   O  X '', 6), (''X   O   X'', 1), (''  X O X  '', 1),
      (''  X O  X '', 6), (''    OXX  '', 2), (''    OX X '', 2)]"

definition o_reply :: "string \<Rightarrow> int" where
  "o_reply b =
     (case completes b PLAYER_O WINNING_COMBINATIONS of
        Some m \<Rightarrow> m
      | None \<Rightarrow>
          (case completes b PLAYER_X WINNING_COMBINATIONS of
             Some m \<Rightarrow> m
           | None \<Rightarrow>
               (case map_of o_reply_table b of
                  Some m \<Rightarrow> m
                | None \<Rightarrow>
                    (case find (\<lambda>m. b ! nat m = EMPTY) [4, 0, 2, 6, 8, 1, 3, 5, 7] of
                       Some m \<Rightarrow> m
                     | None \<Rightarrow> 0))))"

text \<open>
  The certificate checked: \<open>o_holds n x_to_move g\<close> plays every move of 'X' and the
  reply of 'O' that \<open>o_reply\<close> gives, for at most \<open>n\<close> plies, and says whether every game
  ends without 'X' as the winner.
\<close>

primrec o_holds :: "nat \<Rightarrow> bool \<Rightarrow> TicTacToeGame \<Rightarrow> bool" where
  "o_holds 0 x_to_move g = False"
| "o_holds (Suc n) x_to_move g =
     (case check_winner g of
        Inl e \<Rightarrow> False
      | Inr (over, w) \<Rightarrow>
          if over then w \<noteq> Some PLAYER_X
          else if x_to_move then
            list_all (\<lambda>mv. o_holds n False (place g mv PLAYER_X)) (get_valid_moves g)
          else
            (let mv = o_reply (board g) in
             if mv \<in> set (get_valid_moves g) then o_holds n True (place g mv PLAYER_O)
             else False))"

section \<open>Properties\<close>

text \<open>
  Claim C9. Constructing a board from a sequence raises ValueError (the spec's
  InvalidBoardState) exactly when the sequence does not have nine cells or holds a
  value other than blank, 'X' and 'O'; otherwise the board is the sequence itself, so a
  failure produces no board. \<open>"XO"\<close> fails, and the constructor without argument
  gives nine blank cells.
\<close>

theorem construct_fails_iff:
  "(TicTacToeGame_init (Some s) = Inl ValueError
      \<longleftrightarrow> length s \<noteq> 9 \<or> \<not> set s \<subseteq> {EMPTY, PLAYER_X, PLAYER_O})
   \<and> (TicTacToeGame_init (Some s) = Inr \<lparr>board = s\<rparr>
      \<longleftrightarrow> length s = 9 \<and> set s \<subseteq> {EMPTY, PLAYER_X, PLAYER_O})
   \<and> (\<forall>r. TicTacToeGame_init (Some s) = r \<longrightarrow> r = Inl ValueError \<or> r = Inr \<lparr>board = s\<rparr>)
   \<and> TicTacToeGame_init (Some ''XO'') = Inl ValueError
   \<and> TicTacToeGame_init None = Inr \<lparr>board = replicate 9 EMPTY\<rparr>
   \<and> valid_board (replicate 9 EMPTY)"
  by (auto simp: TicTacToeGame_init_def list_all_iff valid_board_def)

theorem construct_fails_iff_witness:
  "TicTacToeGame_init (Some ''XOX OXO Z'') = Inl ValueError
   \<and> TicTacToeGame_init (Some ''XOX OXO  '') = Inr \<lparr>board = ''XOX OXO  ''\<rparr>
   \<and> TicTacToeGame_init (Some ''XO'') = Inl ValueError
   \<and> TicTacToeGame_init None = Inr \<lparr>board = ''         ''\<rparr>"
  using construct_fails_iff [of "''XOX OXO Z''"] construct_fails_iff [of "''XOX OXO  ''"]
  by (simp add: EMPTY_def PLAYER_X_def PLAYER_O_def eval_nat_numeral)

text \<open>
  Claim C8. A sequence of nine cells over blank, 'X' and 'O' is accepted by the
  constructor, and the snapshot of the board built from it is the sequence again; and
  a board built from the snapshot of a board is that board.
\<close>

theorem snapshot_roundtrip:
  "(valid_board s \<longrightarrow>
      (\<exists>g. TicTacToeGame_init (Some s) = Inr g \<and> get_board_state g = s))
   \<and> (valid_board (board b) \<longrightarrow> TicTacToeGame_init (Some (get_board_state b)) = Inr b)"
  by (simp add: init_Some_iff get_board_state_def)

theorem snapshot_roundtrip_witness:
  "valid_board ''XO  X   O''
   \<and> (\<exists>g. TicTacToeGame_init (Some ''XO  X   O'') = Inr g \<and> get_board_state g = ''XO  X   O'')
   \<and> TicTacToeGame_init (Some (get_board_state \<lparr>board = ''XO  X   O''\<rparr>))
       = Inr \<lparr>board = ''XO  X   O''\<rparr>"
proof -
  have v: "valid_board ''XO  X   O''"
    by (simp add: valid_board_def EMPTY_def PLAYER_X_def PLAYER_O_def)
  show ?thesis
    using v snapshot_roundtrip [of "''XO  X   O''" "\<lparr>board = ''XO  X   O''\<rparr>"]
    by simp
qed

text \<open>
  Claim C3. On a board of nine cells over blank, 'X' and 'O': a move to a position in
  0..8 by 'X' or 'O' onto a blank cell returns True and writes the player at that
  position, leaving the eight other cells as they were; any other move returns False
  and leaves the board as it was. Either way the board still has nine cells over blank,
  'X' and 'O'.
\<close>

theorem make_move_frame:
  assumes "valid_board (board g)"
  shows "(0 \<le> position \<and> position \<le> 8 \<and> (player = [PLAYER_X] \<or> player = [PLAYER_O])
            \<and> board g ! nat position = EMPTY
          \<longrightarrow> (\<exists>g'. make_move g position player = Inr (True, g')
                 \<and> [board g' ! nat position] = player
                 \<and> (\<forall>i < 9. i \<noteq> nat position \<longrightarrow> board g' ! i = board g ! i)
                 \<and> valid_board (board g')))
       \<and> (\<not> (0 \<le> position \<and> position \<le> 8 \<and> (player = [PLAYER_X] \<or> player = [PLAYER_O])
               \<and> board g ! nat position = EMPTY)
          \<longrightarrow> make_move g position player = Inr (False, g))
       \<and> (\<exists>ok g'. make_move g position player = Inr (ok, g') \<and> valid_board (board g'))"
proof -
  have "valid_board ((board g)[nat position := p])" if "p = PLAYER_X \<or> p = PLAYER_O" for p
    using assms that set_update_subset_insert [of "board g" "nat position" p]
    by (auto simp: valid_board_def)
  moreover have "nat position < length (board g)" if "0 \<le> position" "position \<le> 8"
    using assms that by (simp add: valid_board_def)
  ultimately show ?thesis
    using assms by (auto simp: make_move_valid)
qed

theorem make_move_frame_witness:
  "valid_board ''XO       ''
   \<and> make_move \<lparr>board = ''XO       ''\<rparr> 4 ''X'' = Inr (True, \<lparr>board = ''XO  X    ''\<rparr>)
   \<and> make_move \<lparr>board = ''XO       ''\<rparr> 1 ''X'' = Inr (False, \<lparr>board = ''XO       ''\<rparr>)
   \<and> make_move \<lparr>board = ''XO       ''\<rparr> 9 ''X'' = Inr (False, \<lparr>board = ''XO       ''\<rparr>)
   \<and> make_move \<lparr>board = ''XO       ''\<rparr> 4 ''Z'' = Inr (False, \<lparr>board = ''XO       ''\<rparr>)"
proof -
  have v: "valid_board (board \<lparr>board = ''XO       ''\<rparr>)"
    by (simp add: valid_board_def EMPTY_def PLAYER_X_def PLAYER_O_def)
  have "make_move \<lparr>board = ''XO       ''\<rparr> 4 ''X'' = Inr (True, \<lparr>board = ''XO  X    ''\<rparr>)"
    by (simp add: make_move_def is_valid_move_def getitem_def EMPTY_def PLAYER_X_def PLAYER_O_def)
  then show ?thesis
    using v make_move_frame [OF v, of 1 "''X''"] make_move_frame [OF v, of 9 "''X''"]
      make_move_frame [OF v, of 4 "''Z''"] make_move_frame [OF v, of 4 "''X''"]
    by (simp add: EMPTY_def PLAYER_X_def PLAYER_O_def)
qed

lemma WINNING_COMBINATIONS_in_range: "list_all combo_in_range WINNING_COMBINATIONS"
  by (simp add: WINNING_COMBINATIONS_def combo_in_range_def)

lemma valid_board_nth:
  "valid_board b \<Longrightarrow> i < 9 \<Longrightarrow> b ! i = EMPTY \<or> b ! i = PLAYER_X \<or> b ! i = PLAYER_O"
proof -
  assume "valid_board b" "i < 9"
  then have "b ! i \<in> set b" "set b \<subseteq> {EMPTY, PLAYER_X, PLAYER_O}"
    by (simp_all add: valid_board_def)
  then show ?thesis by blast
qed

lemma check_combos_step:
  assumes "valid_board b" "combo_in_range combo"
  shows "check_combos b (combo # rest) =
     (if some_player_won b combo then Inr (Some (b ! nat (fst combo)))
      else check_combos b rest)"
proof -
  obtain i j k where c: "combo = (i, j, k)" by (cases combo)
  have r: "0 \<le> i" "i < 9" "0 \<le> j" "j < 9" "0 \<le> k" "k < 9"
    using assms(2) by (auto simp: c combo_in_range_def)
  have len: "length b = 9" using assms(1) by (simp add: valid_board_def)
  have g: "getitem b i = Inr (b ! nat i)" "getitem b j = Inr (b ! nat j)"
    "getitem b k = Inr (b ! nat k)"
    using r len by (simp_all add: getitem_in_range)
  have "b ! nat i = EMPTY \<or> b ! nat i = PLAYER_X \<or> b ! nat i = PLAYER_O"
    using valid_board_nth [OF assms(1), of "nat i"] r by simp
  moreover have "EMPTY \<noteq> PLAYER_X" "EMPTY \<noteq> PLAYER_O"
    by (simp_all add: EMPTY_def PLAYER_X_def PLAYER_O_def)
  ultimately show ?thesis
    by (auto simp: c g some_player_won_def line_won_def)
qed

lemma check_combos_valid:
  assumes "valid_board b" "list_all combo_in_range cs"
  shows "check_combos b cs =
     Inr (map_option (\<lambda>combo. b ! nat (fst combo)) (find (some_player_won b) cs))"
  using assms(2)
proof (induction cs)
  case Nil
  then show ?case by simp
next
  case (Cons combo cs)
  then show ?case
    using check_combos_step [OF assms(1), of combo cs] by simp
qed

lemma check_winner_valid:
  assumes "valid_board (board g)"
  shows "check_winner g =
     (case find (some_player_won (board g)) WINNING_COMBINATIONS of
        Some combo \<Rightarrow> Inr (True, Some (board g ! nat (fst combo)))
      | None \<Rightarrow> if EMPTY \<notin> set (board g) then Inr (True, None) else Inr (False, None))"
  by (simp add: check_winner_def check_combos_valid [OF assms WINNING_COMBINATIONS_in_range]
      split: option.splits)

lemma line_won_fst: "line_won b combo p \<Longrightarrow> b ! nat (fst combo) = p"
  by (cases combo) (simp add: line_won_def)



lemma combo_line_valid:
  assumes "length b = 9" "combo_in_range combo"
  shows "combo_line b combo
    = Inr [b ! nat (fst combo), b ! nat (fst (snd combo)), b ! nat (snd (snd combo))]"
  using assms by (cases combo) (simp add: combo_line_def combo_in_range_def getitem_in_range)

lemma count_list_line:
  "count_list [b ! nat (fst combo), b ! nat (fst (snd combo)), b ! nat (snd (snd combo))] p
     = count_cells b combo p"
  by (cases combo) (simp add: count_cells_def)

lemma score_line_value:
  "score_line [b ! nat (fst combo), b ! nat (fst (snd combo)), b ! nat (snd (snd combo))] s
     = s + line_value b combo"
  unfolding score_line_def Let_def count_list_line line_value_def by simp

lemma score_combos_valid:
  assumes "length b = 9" "list_all combo_in_range cs"
  shows "score_combos b cs s = Inr (s + (\<Sum>combo\<leftarrow>cs. line_value b combo))"
  using assms(2)
proof (induction cs arbitrary: s)
  case Nil
  then show ?case by simp
next
  case (Cons combo cs)
  then show ?case
    by (simp add: combo_line_valid [OF assms(1)] score_line_value add.assoc)
qed

lemma score_weights_valid:
  assumes "list_all (\<lambda>pw. fst pw < length b) pws"
  shows "score_weights b pws s = Inr (s + (\<Sum>pw\<leftarrow>pws. weighted_cell b pw))"
  using assms
proof (induction pws arbitrary: s)
  case Nil
  then show ?case by simp
next
  case (Cons pw pws)
  obtain p w where pw: "pw = (p, w)" by (cases pw)
  from Cons show ?case
    by (simp add: pw getitem_in_range weighted_cell_def add.assoc)
qed

lemma enumerate_POSITION_WEIGHTS:
  "enumerate 0 POSITION_WEIGHTS
     = [(0, 3), (1, 2), (2, 3), (3, 2), (4, 4), (5, 2), (6, 3), (7, 2), (8, 3)]"
  by (simp add: POSITION_WEIGHTS_def)

lemma upt_9: "[0..<9] = [0, 1, 2, 3, 4, 5, 6, 7, 8]"
  by code_simp

lemma weighted_cells_sum:
  "(\<Sum>pw\<leftarrow>enumerate 0 POSITION_WEIGHTS. weighted_cell b pw) = (\<Sum>p\<leftarrow>[0..<9]. cell_value b p)"
  unfolding enumerate_POSITION_WEIGHTS upt_9
  by (simp add: weighted_cell_def cell_value_def position_weight_def)

lemma evaluate_position_valid:
  assumes "valid_board (board game)"
  shows "evaluate_position self game
    = Inr (Fin (spec_static_evaluation (use_position_weights self) (board game)))"
proof -
  have len: "length (board game) = 9"
    using assms by (simp add: valid_board_def)
  have "list_all (\<lambda>pw. fst pw < length (board game)) (enumerate 0 POSITION_WEIGHTS)"
    by (simp add: enumerate_POSITION_WEIGHTS len)
  then have w: "score_weights (board game) (enumerate 0 POSITION_WEIGHTS) s
      = Inr (s + (\<Sum>p\<leftarrow>[0..<9]. cell_value (board game) p))" for s
    by (simp add: score_weights_valid weighted_cells_sum)
  show ?thesis
    by (simp add: evaluate_position_def get_board_state_def spec_static_evaluation_def Let_def
        score_combos_valid [OF len WINNING_COMBINATIONS_in_range] w)
qed

lemma try_move_place:
  "valid_board (board g) \<Longrightarrow> mv \<in> set (get_valid_moves g) \<Longrightarrow> p = PLAYER_X \<or> p = PLAYER_O
   \<Longrightarrow> try_move g mv p = Inr (place g mv p)"
  by (simp add: try_move_valid place_def)

lemma valid_board_place:
  assumes "valid_board (board g)" "p = PLAYER_X \<or> p = PLAYER_O"
  shows "valid_board (board (place g mv p))"
  using assms set_update_subset_insert [of "board g" "nat mv" p]
  by (auto simp: valid_board_def place_def)

lemma empties_place:
  assumes "valid_board (board g)" "mv \<in> set (get_valid_moves g)" "p = PLAYER_X \<or> p = PLAYER_O"
  shows "empties (board (place g mv p)) < empties (board g)"
  using empties_try_move [of g mv p "place g mv p"] try_move_place [OF assms] assms(2,3)
  by simp

lemma valid_board_induct [consumes 1, case_names step]:
  assumes "valid_board (board g)"
    and "\<And>g. valid_board (board g) \<Longrightarrow>
          (\<And>mv p. mv \<in> set (get_valid_moves g) \<Longrightarrow> p = PLAYER_X \<or> p = PLAYER_O
             \<Longrightarrow> P (place g mv p)) \<Longrightarrow> P g"
  shows "P g"
  using assms(1)
proof (induction "empties (board g)" arbitrary: g rule: less_induct)
  case less
  show ?case
  proof (rule assms(2) [OF less.prems])
    fix mv p
    assume "mv \<in> set (get_valid_moves g)" "p = PLAYER_X \<or> p = PLAYER_O"
    then show "P (place g mv p)"
      using less.hyps [of "place g mv p"] less.prems
      by (simp add: empties_place valid_board_place)
  qed
qed

lemma check_winner_total:
  assumes "valid_board (board g)"
  shows "\<exists>over w. check_winner g = Inr (over, w)"
  by (auto simp: check_winner_valid [OF assms] split: option.splits)

lemma minimax_max_valid:
  assumes "valid_board (board g)" "check_winner g = Inr (False, w)" "depth \<noteq> 0"
  shows "minimax self g depth alpha beta True =
     max_loop (\<lambda>mv a. minimax self (place g mv PLAYER_O) (depth - 1) a beta False)
       (get_valid_moves g) NegInf alpha beta"
  using assms
  by (subst minimax.simps) (simp add: try_move_place cong: max_loop_cong)

lemma minimax_min_valid:
  assumes "valid_board (board g)" "check_winner g = Inr (False, w)" "depth \<noteq> 0"
  shows "minimax self g depth alpha beta False =
     min_loop (\<lambda>mv b. minimax self (place g mv PLAYER_X) (depth - 1) alpha b True)
       (get_valid_moves g) PosInf alpha beta"
  using assms
  by (subst minimax.simps) (simp add: try_move_place cong: min_loop_cong)

lemma max_loop_total:
  assumes "\<And>mv a. mv \<in> set ms \<Longrightarrow> \<exists>s. child mv a = Inr s"
  shows "\<exists>s. max_loop child ms m alpha beta = Inr s"
  using assms
proof (induction ms arbitrary: m alpha)
  case Nil
  then show ?case by simp
next
  case (Cons mv ms)
  obtain s where "child mv alpha = Inr s"
    using Cons.prems [of mv alpha] by auto
  then show ?case
    using Cons.IH [of "max m s" "max alpha s"] Cons.prems by simp
qed

lemma min_loop_total:
  assumes "\<And>mv b. mv \<in> set ms \<Longrightarrow> \<exists>s. child mv b = Inr s"
  shows "\<exists>s. min_loop child ms m alpha beta = Inr s"
  using assms
proof (induction ms arbitrary: m beta)
  case Nil
  then show ?case by simp
next
  case (Cons mv ms)
  obtain s where "child mv beta = Inr s"
    using Cons.prems [of mv beta] by auto
  then show ?case
    using Cons.IH [of "min m s" "min beta s"] Cons.prems by simp
qed

lemma minimax_total:
  assumes "valid_board (board g)"
  shows "\<exists>s. minimax self g depth alpha beta is_max = Inr s"
  using assms
proof (induction g arbitrary: depth alpha beta is_max rule: valid_board_induct)
  case (step g)
  obtain over w where cw: "check_winner g = Inr (over, w)"
    using check_winner_total [OF step.hyps] by blast
  show ?case
  proof (cases "over \<or> depth = 0")
    case True
    then show ?thesis
      using minimax.simps [of self g depth alpha beta is_max]
      by (auto simp: cw evaluate_position_valid [OF step.hyps])
  next
    case False
    then have cw': "check_winner g = Inr (False, w)" "depth \<noteq> 0"
      using cw by simp_all
    show ?thesis
    proof (cases is_max)
      case True
      have "\<exists>s. minimax self g depth alpha beta True = Inr s"
        unfolding minimax_max_valid [OF step.hyps cw']
        by (rule max_loop_total) (rule step.IH, simp_all)
      with True show ?thesis by simp
    next
      case False
      have "\<exists>s. minimax self g depth alpha beta False = Inr s"
        unfolding minimax_min_valid [OF step.hyps cw']
        by (rule min_loop_total) (rule step.IH, simp_all)
      with False show ?thesis by simp
    qed
  qed
qed

lemma best_loop_result:
  assumes "\<And>mv. mv \<in> set ms \<Longrightarrow> \<exists>s. score_of mv = Inr s"
    and "best_moves \<noteq> [] \<or> best_score = NegInf"
  shows "\<exists>L. best_loop score_of ms best_score best_moves = Inr L
           \<and> set L \<subseteq> set best_moves \<union> set ms
           \<and> (best_moves \<noteq> [] \<or> ms \<noteq> [] \<longrightarrow> L \<noteq> [])"
  using assms
proof (induction ms arbitrary: best_score best_moves)
  case Nil
  then show ?case by simp
next
  case (Cons mv ms)
  obtain s where s: "score_of mv = Inr s"
    using Cons.prems(1) [of mv] by auto
  have rest: "\<And>mv'. mv' \<in> set ms \<Longrightarrow> \<exists>s. score_of mv' = Inr s"
    using Cons.prems(1) by simp
  consider "best_score < s" | "s = best_score" | "s < best_score"
    by (metis linorder_less_linear)
  then show ?case
  proof cases
    case 1
    then show ?thesis
      using Cons.IH [where best_score = s and best_moves = "[mv]", OF rest] by (auto simp: s)
  next
    case 2
    then show ?thesis
      using Cons.IH [where best_score = best_score and best_moves = "best_moves @ [mv]", OF rest] by (auto simp: s)
  next
    case 3
    then have "best_score \<noteq> NegInf"
      by (cases s) (auto simp: less_score_def)
    with Cons.prems(2) have "best_moves \<noteq> []" by simp
    with 3 show ?thesis
      using Cons.IH [where best_score = best_score and best_moves = best_moves, OF rest] by (auto simp: s)
  qed
qed

lemma move_score_total:
  assumes "valid_board (board g)" "mv \<in> set (get_valid_moves g)"
  shows "\<exists>s. move_score self g mv = Inr s"
proof -
  obtain s where s: "minimax self (place g mv PLAYER_O) (max_depth self) NegInf PosInf False = Inr s"
    using minimax_total [OF valid_board_place [OF assms(1)], of PLAYER_O] by blast
  have "0 \<le> mv" "mv < 9"
    using assms by (auto simp: get_valid_moves_iff valid_board_def)
  then have "getitem POSITION_WEIGHTS mv = Inr (POSITION_WEIGHTS ! nat mv)"
    by (simp add: getitem_in_range POSITION_WEIGHTS_def)
  then show ?thesis
    by (simp add: move_score_def try_move_place [OF assms] s)
qed

lemma random_choice_mem:
  "xs \<noteq> [] \<Longrightarrow> \<exists>x. random_choice k xs = Inr x \<and> x \<in> set xs"
  by (simp add: random_choice_def)

lemma get_valid_moves_Nil: "get_valid_moves g = [] \<longleftrightarrow> EMPTY \<notin> set (board g)"
proof -
  have "get_valid_moves g = [] \<longleftrightarrow> set (get_valid_moves g) = {}" by simp
  also have "\<dots> \<longleftrightarrow> (\<forall>mv. mv \<notin> set (get_valid_moves g))" by auto
  also have "\<dots> \<longleftrightarrow> EMPTY \<notin> set (board g)"
  proof
    assume a: "\<forall>mv. mv \<notin> set (get_valid_moves g)"
    show "EMPTY \<notin> set (board g)"
    proof
      assume "EMPTY \<in> set (board g)"
      then obtain i where "i < length (board g)" "board g ! i = EMPTY"
        by (auto simp: in_set_conv_nth)
      then have "int i \<in> set (get_valid_moves g)"
        by (simp add: get_valid_moves_iff)
      with a show False by blast
    qed
  next
    assume a: "EMPTY \<notin> set (board g)"
    show "\<forall>mv. mv \<notin> set (get_valid_moves g)"
    proof (intro allI notI)
      fix mv assume "mv \<in> set (get_valid_moves g)"
      then have "nat mv < length (board g)" "board g ! nat mv = EMPTY"
        by (auto simp: get_valid_moves_iff)
      then have "EMPTY \<in> set (board g)"
        by (metis nth_mem)
      with a show False by blast
    qed
  qed
  finally show ?thesis .
qed

lemma get_ai_move_result:
  assumes "valid_board (board g)"
  shows "(get_ai_move self g u k = Inr None \<longleftrightarrow> get_valid_moves g = [])
       \<and> (get_valid_moves g = [] \<longleftrightarrow> EMPTY \<notin> set (board g))
       \<and> (\<exists>r. get_ai_move self g u k = Inr r)
       \<and> (\<forall>p. get_ai_move self g u k = Inr (Some p) \<longrightarrow>
             p \<in> set (get_valid_moves g) \<and> 0 \<le> p \<and> p \<le> 8 \<and> board g ! nat p = EMPTY)"
proof -
  have range: "0 \<le> p \<and> p \<le> 8 \<and> board g ! nat p = EMPTY" if "p \<in> set (get_valid_moves g)" for p
    using that assms by (auto simp: get_valid_moves_iff valid_board_def)
  show ?thesis
  proof (cases "get_valid_moves g = []")
    case True
    then show ?thesis
      by (simp add: get_ai_move_def get_valid_moves_Nil [symmetric])
  next
    case False
    obtain p where p: "get_ai_move self g u k = Inr (Some p)" "p \<in> set (get_valid_moves g)"
    proof (cases "u < randomization self")
      case True
      obtain x where "random_choice k (get_valid_moves g) = Inr x" "x \<in> set (get_valid_moves g)"
        using random_choice_mem [OF False] by blast
      then show ?thesis
        using that [of x] False True by (simp add: get_ai_move_def)
    next
      case nr: False
      obtain L where L: "best_loop (move_score self g) (get_valid_moves g) NegInf [] = Inr L"
        "set L \<subseteq> set (get_valid_moves g)" "L \<noteq> []"
        using best_loop_result [of "get_valid_moves g" "move_score self g" "[]" NegInf]
          move_score_total [OF assms] False by auto
      obtain x where "random_choice k L = Inr x" "x \<in> set L"
        using random_choice_mem [OF L(3)] by blast
      then show ?thesis
        using that [of x] False nr L by (auto simp: get_ai_move_def)
    qed
    with False range [OF p(2)] show ?thesis
      by (simp add: get_valid_moves_Nil [symmetric])
  qed
qed

text \<open>
  Claim C7. On a board of nine cells over blank, 'X' and 'O', for every configuration of
  the search and every outcome of the random draws, \<open>get_ai_move\<close> raises nothing; it
  returns None exactly when the board has no blank cell, that is when there is no
  valid move; and a position it returns is a valid move: in 0..8 and blank.
\<close>

theorem get_ai_move_valid_position:
  assumes "valid_board (board g)"
  shows "(get_ai_move self g u k = Inr None \<longleftrightarrow> get_valid_moves g = [])
       \<and> (get_valid_moves g = [] \<longleftrightarrow> EMPTY \<notin> set (board g))
       \<and> (\<exists>r. get_ai_move self g u k = Inr r)
       \<and> (\<forall>p. get_ai_move self g u k = Inr (Some p) \<longrightarrow>
             p \<in> set (get_valid_moves g) \<and> 0 \<le> p \<and> p \<le> 8 \<and> board g ! nat p = EMPTY)"
  using assms by (rule get_ai_move_result)







theorem get_ai_move_valid_position_witness:
  "valid_board (board \<lparr>board = ''OO XX    ''\<rparr>)
   \<and> get_ai_move \<lparr>difficulty = ''hard'', max_depth = 9, randomization = 0,
        use_position_weights = True\<rparr> \<lparr>board = ''OO XX    ''\<rparr> 0 0 = Inr (Some 2)
   \<and> 2 \<in> set (get_valid_moves \<lparr>board = ''OO XX    ''\<rparr>)
   \<and> valid_board (board \<lparr>board = ''XOXXOOOXX''\<rparr>)
   \<and> get_valid_moves \<lparr>board = ''XOXXOOOXX''\<rparr> = []
   \<and> get_ai_move \<lparr>difficulty = ''easy'', max_depth = 2, randomization = 4 / 10,
        use_position_weights = False\<rparr> \<lparr>board = ''XOXXOOOXX''\<rparr> (1 / 2) 3 = Inr None"
proof -
  have v1: "valid_board (board \<lparr>board = ''OO XX    ''\<rparr>)"
    and v2: "valid_board (board \<lparr>board = ''XOXXOOOXX''\<rparr>)"
    and m1: "get_ai_move \<lparr>difficulty = ''hard'', max_depth = 9, randomization = 0,
        use_position_weights = True\<rparr> \<lparr>board = ''OO XX    ''\<rparr> 0 0 = Inr (Some 2)"
    and m2: "get_valid_moves \<lparr>board = ''XOXXOOOXX''\<rparr> = []"
    by code_simp+
  note t1 = get_ai_move_valid_position [OF v1, of "\<lparr>difficulty = ''hard'', max_depth = 9,
        randomization = 0, use_position_weights = True\<rparr>" 0 0]
  note t2 = get_ai_move_valid_position [OF v2, of "\<lparr>difficulty = ''easy'', max_depth = 2,
        randomization = 4 / 10, use_position_weights = False\<rparr>" "1 / 2" 3]
  note p1 = t1 [THEN conjunct2, THEN conjunct2, THEN conjunct2, rule_format, OF m1,
      THEN conjunct1]
  note p2 = t2 [THEN conjunct1, THEN iffD2, OF m2]
  show ?thesis
    by (intro conjI) (fact v1 m1 p1 v2 m2 p2)+
qed

lemma max_loop_nocut_ge:
  "max_loop_nocut child ms m a b = Inr v \<Longrightarrow> m \<le> v"
proof (induction ms arbitrary: m a)
  case Nil
  then show ?case by simp
next
  case (Cons mv ms)
  then obtain s where s: "child mv a = Inr s"
    and rest: "max_loop_nocut child ms (max m s) (max a s) b = Inr v"
    by (auto split: sum.splits)
  have "max m s \<le> v" using Cons.IH [OF rest] .
  then show ?case by simp
qed

lemma min_loop_nocut_le:
  "min_loop_nocut child ms m a b = Inr v \<Longrightarrow> v \<le> m"
proof (induction ms arbitrary: m b)
  case Nil
  then show ?case by simp
next
  case (Cons mv ms)
  then obtain s where s: "child mv b = Inr s"
    and rest: "min_loop_nocut child ms (min m s) a (min b s) = Inr v"
    by (auto split: sum.splits)
  have "v \<le> min m s" using Cons.IH [OF rest] .
  then show ?case by simp
qed

lemma max_loop_nocut_total:
  assumes "\<And>mv a. mv \<in> set ms \<Longrightarrow> \<exists>s. child mv a = Inr s"
  shows "\<exists>s. max_loop_nocut child ms m alpha beta = Inr s"
  using assms
proof (induction ms arbitrary: m alpha)
  case Nil
  then show ?case by simp
next
  case (Cons mv ms)
  obtain s where "child mv alpha = Inr s"
    using Cons.prems [of mv alpha] by auto
  then show ?case
    using Cons.IH [of "max m s" "max alpha s"] Cons.prems by simp
qed

lemma min_loop_nocut_total:
  assumes "\<And>mv b. mv \<in> set ms \<Longrightarrow> \<exists>s. child mv b = Inr s"
  shows "\<exists>s. min_loop_nocut child ms m alpha beta = Inr s"
  using assms
proof (induction ms arbitrary: m beta)
  case Nil
  then show ?case by simp
next
  case (Cons mv ms)
  obtain s where "child mv beta = Inr s"
    using Cons.prems [of mv beta] by auto
  then show ?case
    using Cons.IH [of "min m s" "min beta s"] Cons.prems by simp
qed

lemma max_loop_agree:
  assumes kids: "\<And>mv a a'. mv \<in> set ms \<Longrightarrow> a < b \<Longrightarrow>
            \<exists>r v. child mv a = Inr r \<and> child' mv a' = Inr v \<and> within_window a b r v"
    and st: "max a0 m < b" "m' \<le> m" "a0 < m \<longrightarrow> m = m'"
  shows "\<exists>r v. max_loop child ms m (max a0 m) b = Inr r
            \<and> max_loop_nocut child' ms m' a' b' = Inr v
            \<and> within_window a0 b r v"
  using assms
proof (induction ms arbitrary: m m' a')
  case Nil
  then show ?case
    by (auto simp: within_window_def)
next
  case (Cons mv ms)
  let ?al = "max a0 m"
  obtain r1 v1 where k: "child mv ?al = Inr r1" "child' mv a' = Inr v1"
    "within_window ?al b r1 v1"
    using Cons.prems(1) [of mv ?al a'] Cons.prems(2) by auto
  have kids': "\<And>mv' a a'. mv' \<in> set ms \<Longrightarrow> a < b \<Longrightarrow>
            \<exists>r v. child mv' a = Inr r \<and> child' mv' a' = Inr v \<and> within_window a b r v"
    using Cons.prems(1) by simp
  show ?case
  proof (cases "b \<le> max ?al r1")
    case True
    have tot: "\<And>mv' a. mv' \<in> set ms \<Longrightarrow> \<exists>s. child' mv' a = Inr s"
      using kids' Cons.prems(2) by blast
    obtain v where v: "max_loop_nocut child' ms (max m' v1) (max a' v1) b' = Inr v"
      using max_loop_nocut_total [where child = child' and ms = ms] tot by blast
    have "max m' v1 \<le> v" using max_loop_nocut_ge [OF v] .
    moreover have "b \<le> r1" using True Cons.prems(2) by (auto simp: max_def split: if_splits)
    moreover have "r1 \<le> v1" using k(3) \<open>b \<le> r1\<close> Cons.prems(2)
      by (auto simp: within_window_def max_def split: if_splits)
    moreover have "max m r1 = r1" using \<open>b \<le> r1\<close> Cons.prems(2)
      by (auto simp: max_def split: if_splits)
    moreover have "a0 < r1" using \<open>b \<le> r1\<close> Cons.prems(2)
      by (auto simp: max_def split: if_splits)
    ultimately have "within_window a0 b (max m r1) v"
      by (auto simp: within_window_def)
    then show ?thesis
      using True k v by simp
  next
    case False
    then have lt: "max a0 (max m r1) < b"
      by (simp add: max.assoc not_le)
    have r1b: "r1 < b" using lt by simp
    have v1r1: "v1 \<le> r1"
      using k(3) r1b by (auto simp: within_window_def split: if_splits)
    have le: "max m' v1 \<le> max m r1"
      using Cons.prems(3) v1r1 by (simp add: max.coboundedI1 max.coboundedI2)
    have eq: "a0 < max m r1 \<longrightarrow> max m r1 = max m' v1"
    proof
      assume a: "a0 < max m r1"
      show "max m r1 = max m' v1"
      proof (cases "r1 \<le> m")
        case True
        then have "a0 < m" using a by (simp add: max_def split: if_splits)
        then have "m = m'" using Cons.prems(4) by simp
        then show ?thesis using True v1r1 by (auto simp: max_def)
      next
        case False
        then have "m < r1" by simp
        moreover from this a have "a0 < r1" by (simp add: max_def split: if_splits)
        ultimately have "?al < r1" by simp
        then have "\<not> r1 \<le> ?al" "\<not> b \<le> r1"
          using r1b by (simp_all add: not_le)
        then have "r1 = v1"
          using k(3) by (simp add: within_window_def)
        then show ?thesis
          using \<open>m < r1\<close> Cons.prems(3) by (auto simp: max_def)
      qed
    qed
    obtain r v where rv: "max_loop child ms (max m r1) (max a0 (max m r1)) b = Inr r"
      "max_loop_nocut child' ms (max m' v1) (max a' v1) b' = Inr v" "within_window a0 b r v"
      using Cons.IH [OF kids' lt le eq] by blast
    have "max ?al r1 = max a0 (max m r1)"
      by (simp add: max.assoc)
    then show ?thesis
      using False k rv by simp
  qed
qed

lemma min_loop_agree:
  assumes kids: "\<And>mv b b'. mv \<in> set ms \<Longrightarrow> a < b \<Longrightarrow>
            \<exists>r v. child mv b = Inr r \<and> child' mv b' = Inr v \<and> within_window a b r v"
    and st: "a < min b0 m" "m \<le> m'" "m < b0 \<longrightarrow> m = m'"
  shows "\<exists>r v. min_loop child ms m a (min b0 m) = Inr r
            \<and> min_loop_nocut child' ms m' a' b' = Inr v
            \<and> within_window a b0 r v"
  using assms
proof (induction ms arbitrary: m m' b')
  case Nil
  then show ?case
    by (auto simp: within_window_def)
next
  case (Cons mv ms)
  let ?be = "min b0 m"
  obtain r1 v1 where k: "child mv ?be = Inr r1" "child' mv b' = Inr v1"
    "within_window a ?be r1 v1"
    using Cons.prems(1) [of mv ?be b'] Cons.prems(2) by auto
  have kids': "\<And>mv' b b'. mv' \<in> set ms \<Longrightarrow> a < b \<Longrightarrow>
            \<exists>r v. child mv' b = Inr r \<and> child' mv' b' = Inr v \<and> within_window a b r v"
    using Cons.prems(1) by simp
  show ?case
  proof (cases "min ?be r1 \<le> a")
    case True
    have tot: "\<And>mv' b. mv' \<in> set ms \<Longrightarrow> \<exists>s. child' mv' b = Inr s"
      using kids' Cons.prems(2) by blast
    obtain v where v: "min_loop_nocut child' ms (min m' v1) a' (min b' v1) = Inr v"
      using min_loop_nocut_total [where child = child' and ms = ms] tot by blast
    have "v \<le> min m' v1" using min_loop_nocut_le [OF v] .
    moreover have r1a: "r1 \<le> a" using True Cons.prems(2) by (auto simp: min_def split: if_splits)
    moreover have "v1 \<le> r1" using k(3) r1a
      by (simp add: within_window_def)
    moreover have "min m r1 = r1" using r1a Cons.prems(2)
      by (auto simp: min_def split: if_splits)
    ultimately have "within_window a b0 (min m r1) v"
      by (auto simp: within_window_def)
    then show ?thesis
      using True k v by simp
  next
    case False
    then have lt: "a < min b0 (min m r1)"
      by (simp add: min.assoc not_le)
    have ar1: "a < r1" using lt by simp
    then have nr: "\<not> r1 \<le> a" by (simp add: not_le)
    have r1v1: "r1 \<le> v1"
      using k(3) nr by (auto simp: within_window_def split: if_splits)
    have le: "min m r1 \<le> min m' v1"
      using Cons.prems(3) r1v1 by (simp add: min.coboundedI1 min.coboundedI2)
    have eq: "min m r1 < b0 \<longrightarrow> min m r1 = min m' v1"
    proof
      assume a: "min m r1 < b0"
      show "min m r1 = min m' v1"
      proof (cases "m \<le> r1")
        case True
        then have "m < b0" using a by (simp add: min_def split: if_splits)
        then have "m = m'" using Cons.prems(4) by simp
        then show ?thesis using True r1v1 by (auto simp: min_def)
      next
        case False
        then have "r1 < m" by simp
        moreover from this a have "r1 < b0" by (simp add: min_def split: if_splits)
        ultimately have "r1 < ?be" by simp
        then have "\<not> ?be \<le> r1"
          by (simp add: not_le)
        then have "r1 = v1"
          using k(3) nr by (simp add: within_window_def)
        then show ?thesis
          using \<open>r1 < m\<close> Cons.prems(3) by (auto simp: min_def)
      qed
    qed
    obtain r v where rv: "min_loop child ms (min m r1) a (min b0 (min m r1)) = Inr r"
      "min_loop_nocut child' ms (min m' v1) a' (min b' v1) = Inr v" "within_window a b0 r v"
      using Cons.IH [OF kids' lt le eq] by blast
    have "min ?be r1 = min b0 (min m r1)"
      by (simp add: min.assoc)
    then show ?thesis
      using False k rv by simp
  qed
qed

lemma minimax_nocut_max_valid:
  assumes "valid_board (board g)" "check_winner g = Inr (False, w)" "depth \<noteq> 0"
  shows "minimax_nocut self g depth alpha beta True =
     max_loop_nocut (\<lambda>mv a. minimax_nocut self (place g mv PLAYER_O) (depth - 1) a beta False)
       (get_valid_moves g) NegInf alpha beta"
  using assms
  by (subst minimax_nocut.simps) (simp add: try_move_place cong: max_loop_nocut_cong)

lemma minimax_nocut_min_valid:
  assumes "valid_board (board g)" "check_winner g = Inr (False, w)" "depth \<noteq> 0"
  shows "minimax_nocut self g depth alpha beta False =
     min_loop_nocut (\<lambda>mv b. minimax_nocut self (place g mv PLAYER_X) (depth - 1) alpha b True)
       (get_valid_moves g) PosInf alpha beta"
  using assms
  by (subst minimax_nocut.simps) (simp add: try_move_place cong: min_loop_nocut_cong)

lemma minimax_leaf:
  assumes "check_winner g = Inr (over, w)" "over \<or> depth = 0"
  shows "minimax self g depth alpha beta is_max = minimax_nocut self g depth alpha' beta' is_max"
  using assms minimax.simps [of self g depth alpha beta is_max]
    minimax_nocut.simps [of self g depth alpha' beta' is_max]
  by auto

lemma NegInf_least [simp]: "NegInf \<le> x" "\<not> x < NegInf" "max x NegInf = x" "max NegInf x = x"
  by (cases x; simp add: less_score_def max_def)+

lemma PosInf_greatest [simp]: "x \<le> PosInf" "\<not> PosInf < x" "min x PosInf = x" "min PosInf x = x"
  by (cases x; simp add: less_score_def min_def)+

lemma within_window_refl: "within_window a b r r"
  by (simp add: within_window_def)

lemma minimax_within_window:
  assumes "valid_board (board g)" "alpha < beta"
  shows "\<exists>r v. minimax self g depth alpha beta is_max = Inr r
            \<and> minimax_nocut self g depth alpha' beta' is_max = Inr v
            \<and> within_window alpha beta r v"
  using assms
proof (induction g arbitrary: depth alpha beta alpha' beta' is_max rule: valid_board_induct)
  case (step g)
  obtain over w where cw: "check_winner g = Inr (over, w)"
    using check_winner_total [OF step.hyps] by blast
  show ?case
  proof (cases "over \<or> depth = 0")
    case True
    obtain r where "minimax self g depth alpha beta is_max = Inr r"
      using minimax_total [OF step.hyps] by blast
    then show ?thesis
      using minimax_leaf [OF cw True, of self alpha beta is_max alpha' beta']
      by (auto simp: within_window_refl)
  next
    case False
    then have cw': "check_winner g = Inr (False, w)" "depth \<noteq> 0"
      using cw by simp_all
    show ?thesis
    proof (cases is_max)
      case True
      have "\<exists>r v. max_loop (\<lambda>mv a. minimax self (place g mv PLAYER_O) (depth - 1) a beta False)
                (get_valid_moves g) NegInf (max alpha NegInf) beta = Inr r
            \<and> max_loop_nocut
                (\<lambda>mv a. minimax_nocut self (place g mv PLAYER_O) (depth - 1) a beta' False)
                (get_valid_moves g) NegInf alpha' beta' = Inr v
            \<and> within_window alpha beta r v"
      proof (rule max_loop_agree)
        fix mv a a'
        assume "mv \<in> set (get_valid_moves g)" "a < beta"
        then show "\<exists>r v. minimax self (place g mv PLAYER_O) (depth - 1) a beta False = Inr r
            \<and> minimax_nocut self (place g mv PLAYER_O) (depth - 1) a' beta' False = Inr v
            \<and> within_window a beta r v"
          using step.IH [of mv PLAYER_O a beta "depth - 1" False a' beta'] by simp
      qed (use step.prems in simp_all)
      then show ?thesis
        using True by (simp add: minimax_max_valid [OF step.hyps cw']
            minimax_nocut_max_valid [OF step.hyps cw'])
    next
      case False
      have "\<exists>r v. min_loop (\<lambda>mv b. minimax self (place g mv PLAYER_X) (depth - 1) alpha b True)
                (get_valid_moves g) PosInf alpha (min beta PosInf) = Inr r
            \<and> min_loop_nocut
                (\<lambda>mv b. minimax_nocut self (place g mv PLAYER_X) (depth - 1) alpha' b True)
                (get_valid_moves g) PosInf alpha' beta' = Inr v
            \<and> within_window alpha beta r v"
      proof (rule min_loop_agree)
        fix mv b b'
        assume "mv \<in> set (get_valid_moves g)" "alpha < b"
        then show "\<exists>r v. minimax self (place g mv PLAYER_X) (depth - 1) alpha b True = Inr r
            \<and> minimax_nocut self (place g mv PLAYER_X) (depth - 1) alpha' b' True = Inr v
            \<and> within_window alpha b r v"
          using step.IH [of mv PLAYER_X alpha b "depth - 1" True alpha' b'] by simp
      qed (use step.prems in simp_all)
      then show ?thesis
        using False by (simp add: minimax_min_valid [OF step.hyps cw']
            minimax_nocut_min_valid [OF step.hyps cw'])
    qed
  qed
qed

lemma within_full_window: "within_window NegInf PosInf r v \<Longrightarrow> r = v"
  by (cases r; cases v) (auto simp: within_window_def split: if_splits)

lemma minimax_eq_nocut:
  assumes "valid_board (board g)"
  shows "minimax self g depth NegInf PosInf is_max = minimax_nocut self g depth alpha' beta' is_max"
proof -
  have "NegInf < PosInf" by (simp add: less_score_def)
  then obtain r v where "minimax self g depth NegInf PosInf is_max = Inr r"
    "minimax_nocut self g depth alpha' beta' is_max = Inr v" "within_window NegInf PosInf r v"
    using minimax_within_window [OF assms, of NegInf PosInf self depth is_max alpha' beta']
    by blast
  then show ?thesis
    by (simp add: within_full_window)
qed

text \<open>
  Claim C4. On a board of nine cells over blank, 'X' and 'O', for every depth and both
  values of the maximizing flag, \<open>_minimax\<close> called with alpha = -inf and beta = +inf
  returns a score, and it is the score that the same recursion without the test
  \<open>beta <= alpha\<close> returns.
\<close>

theorem alpha_beta_same_score:
  assumes "valid_board (board game)"
  shows "\<exists>score. minimax self game depth NegInf PosInf is_maximizing = Inr score
           \<and> minimax_nocut self game depth NegInf PosInf is_maximizing = Inr score"
  using minimax_total [OF assms, of self depth NegInf PosInf is_maximizing]
    minimax_eq_nocut [OF assms, of self depth is_maximizing NegInf PosInf]
  by auto

theorem alpha_beta_same_score_witness:
  "valid_board (board \<lparr>board = ''XO  X    ''\<rparr>)
   \<and> minimax \<lparr>difficulty = ''medium'', max_depth = 4, randomization = 2 / 10,
        use_position_weights = True\<rparr> \<lparr>board = ''XO  X    ''\<rparr> 2 NegInf PosInf True
       = Inr (Fin (- (19 / 2)))
   \<and> minimax_nocut \<lparr>difficulty = ''medium'', max_depth = 4, randomization = 2 / 10,
        use_position_weights = True\<rparr> \<lparr>board = ''XO  X    ''\<rparr> 2 NegInf PosInf True
       = Inr (Fin (- (19 / 2)))"
proof -
  have v: "valid_board (board \<lparr>board = ''XO  X    ''\<rparr>)"
    and m: "minimax \<lparr>difficulty = ''medium'', max_depth = 4, randomization = 2 / 10,
        use_position_weights = True\<rparr> \<lparr>board = ''XO  X    ''\<rparr> 2 NegInf PosInf True
       = Inr (Fin (- (19 / 2)))"
    by code_simp+
  obtain score where s: "minimax \<lparr>difficulty = ''medium'', max_depth = 4, randomization = 2 / 10,
        use_position_weights = True\<rparr> \<lparr>board = ''XO  X    ''\<rparr> 2 NegInf PosInf True = Inr score"
    "minimax_nocut \<lparr>difficulty = ''medium'', max_depth = 4, randomization = 2 / 10,
        use_position_weights = True\<rparr> \<lparr>board = ''XO  X    ''\<rparr> 2 NegInf PosInf True = Inr score"
    using alpha_beta_same_score [OF v] by blast
  have "score = Fin (- (19 / 2))"
    using s(1) m by simp
  then show ?thesis
    using v m s(2) by simp
qed

lemma clone_and_move_frame:
  assumes "clone_and_move h game mv p = Inr (gc, h2)"
  shows "take (length h) h2 = h"
  using assms
  by (auto simp: clone_and_move_def new_game_def make_move_at_def split: sum.splits)

lemma take_frame_trans:
  assumes "take (length h) h2 = h" "take (length h2) h3 = h2"
  shows "take (length h) h3 = h"
proof -
  have "length (take (length h) h2) = length h"
    using assms(1) by simp
  then have "length h \<le> length h2"
    by simp
  then have "take (length h) h3 = take (length h) (take (length h2) h3)"
    by (simp add: min_def)
  then show ?thesis
    using assms by simp
qed

lemma take_frame_nth:
  assumes "take (length h) h' = h" "r < length h"
  shows "h' ! r = h ! r"
  using assms by (metis nth_take)

lemma max_loop_st_frame:
  assumes "\<And>h2 gc a s h3. search h2 gc a = Some (Inr (s, h3)) \<Longrightarrow> take (length h2) h3 = h2"
    and "max_loop_st search h game ms m alpha beta = Some (Inr (s, h'))"
  shows "take (length h) h' = h"
  using assms(2)
proof (induction ms arbitrary: h m alpha)
  case Nil
  then show ?case by simp
next
  case (Cons mv ms)
  from Cons.prems obtain gc h2 s1 h3 where
    c: "clone_and_move h game mv PLAYER_O = Inr (gc, h2)"
    and r: "search h2 gc alpha = Some (Inr (s1, h3))"
    and rest: "(beta \<le> max alpha s1 \<and> h' = h3) \<or>
       max_loop_st search h3 game ms (max m s1) (max alpha s1) beta = Some (Inr (s, h'))"
    by (auto split: sum.splits option.splits if_splits)
  have f13: "take (length h) h3 = h"
    using take_frame_trans [OF clone_and_move_frame [OF c] assms(1) [OF r]] .
  from rest show ?case
  proof
    assume "beta \<le> max alpha s1 \<and> h' = h3"
    with f13 show ?thesis by simp
  next
    assume "max_loop_st search h3 game ms (max m s1) (max alpha s1) beta = Some (Inr (s, h'))"
    from take_frame_trans [OF f13 Cons.IH [OF this]] show ?thesis .
  qed
qed

lemma min_loop_st_frame:
  assumes "\<And>h2 gc b s h3. search h2 gc b = Some (Inr (s, h3)) \<Longrightarrow> take (length h2) h3 = h2"
    and "min_loop_st search h game ms m alpha beta = Some (Inr (s, h'))"
  shows "take (length h) h' = h"
  using assms(2)
proof (induction ms arbitrary: h m beta)
  case Nil
  then show ?case by simp
next
  case (Cons mv ms)
  from Cons.prems obtain gc h2 s1 h3 where
    c: "clone_and_move h game mv PLAYER_X = Inr (gc, h2)"
    and r: "search h2 gc beta = Some (Inr (s1, h3))"
    and rest: "(min beta s1 \<le> alpha \<and> h' = h3) \<or>
       min_loop_st search h3 game ms (min m s1) alpha (min beta s1) = Some (Inr (s, h'))"
    by (auto split: sum.splits option.splits if_splits)
  have f13: "take (length h) h3 = h"
    using take_frame_trans [OF clone_and_move_frame [OF c] assms(1) [OF r]] .
  from rest show ?case
  proof
    assume "min beta s1 \<le> alpha \<and> h' = h3"
    with f13 show ?thesis by simp
  next
    assume "min_loop_st search h3 game ms (min m s1) alpha (min beta s1) = Some (Inr (s, h'))"
    from take_frame_trans [OF f13 Cons.IH [OF this]] show ?thesis .
  qed
qed

lemma minimax_st_frame:
  "minimax_st fuel self h game depth alpha beta is_max = Some (Inr (s, h'))
   \<Longrightarrow> take (length h) h' = h"
proof (induction fuel arbitrary: h game depth alpha beta is_max s h')
  case 0
  then show ?case by simp
next
  case (Suc fuel)
  obtain r where cw: "check_winner (h ! game) = r" by simp
  show ?case
  proof (cases r)
    case (Inl e)
    with Suc.prems cw show ?thesis by simp
  next
    case (Inr ow)
    obtain over w where ow: "ow = (over, w)" by (cases ow)
    show ?thesis
    proof (cases "over \<or> depth = 0")
      case True
      with Suc.prems cw Inr ow show ?thesis
        by (auto split: sum.splits if_splits)
    next
      case False
      show ?thesis
      proof (cases is_max)
        case True
        with Suc.prems cw Inr ow False have
          "max_loop_st
              (\<lambda>h2 game_copy alpha. minimax_st fuel self h2 game_copy (depth - 1) alpha beta False)
              h game (get_valid_moves (h ! game)) NegInf alpha beta = Some (Inr (s, h'))"
          by simp
        then show ?thesis
          by (rule max_loop_st_frame [rotated]) (rule Suc.IH)
      next
        case nm: False
        with Suc.prems cw Inr ow False have
          "min_loop_st
              (\<lambda>h2 game_copy beta. minimax_st fuel self h2 game_copy (depth - 1) alpha beta True)
              h game (get_valid_moves (h ! game)) PosInf alpha beta = Some (Inr (s, h'))"
          by simp
        then show ?thesis
          by (rule min_loop_st_frame [rotated]) (rule Suc.IH)
      qed
    qed
  qed
qed

lemma best_loop_st_frame:
  assumes "\<And>h2 gc s h3. search h2 gc = Some (Inr (s, h3)) \<Longrightarrow> take (length h2) h3 = h2"
    and "best_loop_st search self h game ms bs bm = Some (Inr (L, h'))"
  shows "take (length h) h' = h"
  using assms(2)
proof (induction ms arbitrary: h bs bm)
  case Nil
  then show ?case by simp
next
  case (Cons mv ms)
  from Cons.prems obtain gc h2 s1 h3 bs' bm' where
    c: "clone_and_move h game mv PLAYER_O = Inr (gc, h2)"
    and r: "search h2 gc = Some (Inr (s1, h3))"
    and rest: "best_loop_st search self h3 game ms bs' bm' = Some (Inr (L, h'))"
    by (auto split: sum.splits option.splits if_splits)
  have f13: "take (length h) h3 = h"
    using take_frame_trans [OF clone_and_move_frame [OF c] assms(1) [OF r]] .
  from take_frame_trans [OF f13 Cons.IH [OF rest]] show ?case .
qed

lemma get_ai_move_st_frame:
  assumes "get_ai_move_st fuel self h game u k = Some (Inr (res, h'))"
  shows "take (length h) h' = h"
proof (cases "get_valid_moves (h ! game) = [] \<or> u < randomization self")
  case True
  with assms show ?thesis
    by (auto simp: get_ai_move_st_def Let_def split: sum.splits if_splits)
next
  case False
  with assms obtain L where
    "best_loop_st
       (\<lambda>h2 game_copy. minimax_st fuel self h2 game_copy (max_depth self) NegInf PosInf False)
       self h game (get_valid_moves (h ! game)) NegInf [] = Some (Inr (L, h'))"
    by (auto simp: get_ai_move_st_def Let_def split: sum.splits option.splits if_splits)
  then show ?thesis
    by (rule best_loop_st_frame [rotated]) (rule minimax_st_frame)
qed

lemma clone_and_move_valid:
  assumes "game < length h" "valid_board (board (h ! game))"
    "mv \<in> set (get_valid_moves (h ! game))" "p = PLAYER_X \<or> p = PLAYER_O"
  shows "clone_and_move h game mv p = Inr (length h, h @ [place (h ! game) mv p])"
proof -
  let ?b = "board (h ! game)"
  have n: "new_game h (Some ?b) = Inr (length h, h @ [\<lparr>board = ?b\<rparr>])"
    using assms(2) by (simp add: new_game_def init_Some_valid)
  have v: "valid_board (board \<lparr>board = ?b\<rparr>)"
    using assms(2) by simp
  have mvs: "mv \<in> set (get_valid_moves \<lparr>board = ?b\<rparr>)"
    using assms(3) by (simp add: get_valid_moves_iff)
  have r: "0 \<le> mv" "mv \<le> 8" "?b ! nat mv = EMPTY"
    using assms(2,3) by (auto simp: get_valid_moves_iff valid_board_def)
  have "make_move \<lparr>board = ?b\<rparr> mv [p] = Inr (True, \<lparr>board = ?b[nat mv := p]\<rparr>)"
    using r assms(4) by (auto simp: make_move_valid [OF v])
  then have "make_move_at (h @ [\<lparr>board = ?b\<rparr>]) (length h) mv [p]
      = Inr (True, h @ [place (h ! game) mv p])"
    by (simp add: make_move_at_def place_def)
  with n show ?thesis
    by (simp add: clone_and_move_def)
qed

lemma max_loop_st_correct:
  assumes search: "\<And>h2 gc mv a. mv \<in> set ms \<Longrightarrow> gc < length h2 \<Longrightarrow> h2 ! gc = place G mv PLAYER_O
      \<Longrightarrow> \<exists>s h3. search h2 gc a = Some (Inr (s, h3)) \<and> child mv a = Inr s
            \<and> take (length h2) h3 = h2"
    and G: "valid_board (board G)" "set ms \<subseteq> set (get_valid_moves G)"
    and h: "game < length h" "h ! game = G"
  shows "\<exists>s h'. max_loop_st search h game ms m alpha beta = Some (Inr (s, h'))
           \<and> max_loop child ms m alpha beta = Inr s \<and> take (length h) h' = h"
  using search G(2) h
proof (induction ms arbitrary: h m alpha)
  case Nil
  then show ?case by simp
next
  case (Cons mv ms)
  have mv: "mv \<in> set (get_valid_moves (h ! game))"
    using Cons.prems(2,4) by simp
  have c: "clone_and_move h game mv PLAYER_O = Inr (length h, h @ [place G mv PLAYER_O])"
    using clone_and_move_valid [OF Cons.prems(3) _ mv, of PLAYER_O] G(1) Cons.prems(4) by simp
  let ?h2 = "h @ [place G mv PLAYER_O]"
  obtain s1 h3 where s1: "search ?h2 (length h) alpha = Some (Inr (s1, h3))"
    "child mv alpha = Inr s1" "take (length ?h2) h3 = ?h2"
    using Cons.prems(1) [of mv "length h" ?h2 alpha] by auto
  have f: "take (length h) h3 = h"
    using take_frame_trans [of h ?h2 h3] s1(3) by simp
  show ?case
  proof (cases "beta \<le> max alpha s1")
    case True
    then show ?thesis using c s1 f by simp
  next
    case False
    have g3: "game < length h3" "h3 ! game = G"
      using f Cons.prems(3,4) take_frame_nth [OF f Cons.prems(3)]
      by (auto simp: dest: arg_cong [where f = length])
    have search': "\<And>h2 gc mv' a. mv' \<in> set ms \<Longrightarrow> gc < length h2
        \<Longrightarrow> h2 ! gc = place G mv' PLAYER_O
        \<Longrightarrow> \<exists>s h3. search h2 gc a = Some (Inr (s, h3)) \<and> child mv' a = Inr s
            \<and> take (length h2) h3 = h2"
      using Cons.prems(1) by simp
    have sub: "set ms \<subseteq> set (get_valid_moves G)"
      using Cons.prems(2) by simp
    obtain s h' where
      "max_loop_st search h3 game ms (max m s1) (max alpha s1) beta = Some (Inr (s, h'))"
      "max_loop child ms (max m s1) (max alpha s1) beta = Inr s" "take (length h3) h' = h3"
      using Cons.IH [OF search' sub g3] by blast
    then show ?thesis
      using False c s1 take_frame_trans [OF f] by simp
  qed
qed

lemma min_loop_st_correct:
  assumes search: "\<And>h2 gc mv a. mv \<in> set ms \<Longrightarrow> gc < length h2 \<Longrightarrow> h2 ! gc = place G mv PLAYER_X
      \<Longrightarrow> \<exists>s h3. search h2 gc a = Some (Inr (s, h3)) \<and> child mv a = Inr s
            \<and> take (length h2) h3 = h2"
    and G: "valid_board (board G)" "set ms \<subseteq> set (get_valid_moves G)"
    and h: "game < length h" "h ! game = G"
  shows "\<exists>s h'. min_loop_st search h game ms m alpha beta = Some (Inr (s, h'))
           \<and> min_loop child ms m alpha beta = Inr s \<and> take (length h) h' = h"
  using search G(2) h
proof (induction ms arbitrary: h m beta)
  case Nil
  then show ?case by simp
next
  case (Cons mv ms)
  have mv: "mv \<in> set (get_valid_moves (h ! game))"
    using Cons.prems(2,4) by simp
  have c: "clone_and_move h game mv PLAYER_X = Inr (length h, h @ [place G mv PLAYER_X])"
    using clone_and_move_valid [OF Cons.prems(3) _ mv, of PLAYER_X] G(1) Cons.prems(4) by simp
  let ?h2 = "h @ [place G mv PLAYER_X]"
  obtain s1 h3 where s1: "search ?h2 (length h) beta = Some (Inr (s1, h3))"
    "child mv beta = Inr s1" "take (length ?h2) h3 = ?h2"
    using Cons.prems(1) [of mv "length h" ?h2 beta] by auto
  have f: "take (length h) h3 = h"
    using take_frame_trans [of h ?h2 h3] s1(3) by simp
  show ?case
  proof (cases "min beta s1 \<le> alpha")
    case True
    then show ?thesis using c s1 f by simp
  next
    case False
    have g3: "game < length h3" "h3 ! game = G"
      using f Cons.prems(3,4) take_frame_nth [OF f Cons.prems(3)]
      by (auto simp: dest: arg_cong [where f = length])
    have search': "\<And>h2 gc mv' a. mv' \<in> set ms \<Longrightarrow> gc < length h2
        \<Longrightarrow> h2 ! gc = place G mv' PLAYER_X
        \<Longrightarrow> \<exists>s h3. search h2 gc a = Some (Inr (s, h3)) \<and> child mv' a = Inr s
            \<and> take (length h2) h3 = h2"
      using Cons.prems(1) by simp
    have sub: "set ms \<subseteq> set (get_valid_moves G)"
      using Cons.prems(2) by simp
    obtain s h' where
      "min_loop_st search h3 game ms (min m s1) alpha (min beta s1) = Some (Inr (s, h'))"
      "min_loop child ms (min m s1) alpha (min beta s1) = Inr s" "take (length h3) h' = h3"
      using Cons.IH [OF search' sub g3] by blast
    then show ?thesis
      using False c s1 take_frame_trans [OF f] by simp
  qed
qed

lemma minimax_st_correct:
  assumes "game < length h" "valid_board (board (h ! game))" "empties (board (h ! game)) < fuel"
  shows "\<exists>s h'. minimax_st fuel self h game depth alpha beta is_max = Some (Inr (s, h'))
           \<and> minimax self (h ! game) depth alpha beta is_max = Inr s
           \<and> take (length h) h' = h"
  using assms
proof (induction fuel arbitrary: h game depth alpha beta is_max)
  case 0
  then show ?case by simp
next
  case (Suc fuel)
  let ?G = "h ! game"
  obtain over w where cw: "check_winner ?G = Inr (over, w)"
    using check_winner_total [OF Suc.prems(2)] by blast
  show ?case
  proof (cases "over \<or> depth = 0")
    case True
    then show ?thesis
      using minimax.simps [of self ?G depth alpha beta is_max]
      by (auto simp: cw evaluate_position_valid [OF Suc.prems(2)])
  next
    case False
    then have cw': "check_winner ?G = Inr (False, w)" "depth \<noteq> 0"
      using cw by simp_all
    have kid: "\<exists>s h3. minimax_st fuel self h2 gc (depth - 1) a b m = Some (Inr (s, h3))
            \<and> minimax self (place ?G mv p) (depth - 1) a b m = Inr s
            \<and> take (length h2) h3 = h2"
      if "mv \<in> set (get_valid_moves ?G)" "gc < length h2" "h2 ! gc = place ?G mv p"
        "p = PLAYER_X \<or> p = PLAYER_O" for h2 gc mv p a b m
    proof -
      have "empties (board (place ?G mv p)) < fuel"
        using empties_place [OF Suc.prems(2) that(1,4)] Suc.prems(3) by simp
      then show ?thesis
        using Suc.IH [of gc h2 "depth - 1" a b m] that valid_board_place [OF Suc.prems(2) that(4)]
        by simp
    qed
    show ?thesis
    proof (cases is_max)
      case True
      have "\<exists>s h'. max_loop_st
              (\<lambda>h2 game_copy a. minimax_st fuel self h2 game_copy (depth - 1) a beta False)
              h game (get_valid_moves ?G) NegInf alpha beta = Some (Inr (s, h'))
           \<and> max_loop (\<lambda>mv a. minimax self (place ?G mv PLAYER_O) (depth - 1) a beta False)
              (get_valid_moves ?G) NegInf alpha beta = Inr s
           \<and> take (length h) h' = h"
        by (rule max_loop_st_correct [where G = ?G])
          (use kid Suc.prems in simp_all)
      then show ?thesis
        using True cw' by (simp add: cw minimax_max_valid [OF Suc.prems(2) cw'])
    next
      case nm: False
      have "\<exists>s h'. min_loop_st
              (\<lambda>h2 game_copy b. minimax_st fuel self h2 game_copy (depth - 1) alpha b True)
              h game (get_valid_moves ?G) PosInf alpha beta = Some (Inr (s, h'))
           \<and> min_loop (\<lambda>mv b. minimax self (place ?G mv PLAYER_X) (depth - 1) alpha b True)
              (get_valid_moves ?G) PosInf alpha beta = Inr s
           \<and> take (length h) h' = h"
        by (rule min_loop_st_correct [where G = ?G])
          (use kid Suc.prems in simp_all)
      then show ?thesis
        using nm cw' by (simp add: cw minimax_min_valid [OF Suc.prems(2) cw'])
    qed
  qed
qed

lemma move_score_place:
  assumes "valid_board (board G)" "mv \<in> set (get_valid_moves G)"
    "minimax self (place G mv PLAYER_O) (max_depth self) NegInf PosInf False = Inr s"
  shows "move_score self G mv = add_position_weight self mv s"
  using assms by (simp add: move_score_def try_move_place add_position_weight_def)

lemma add_position_weight_total:
  assumes "0 \<le> mv" "mv < 9"
  shows "\<exists>s'. add_position_weight self mv s = Inr s'"
  using assms by (simp add: add_position_weight_def getitem_in_range POSITION_WEIGHTS_def)

lemma best_loop_st_correct:
  assumes search: "\<And>h2 gc mv. mv \<in> set ms \<Longrightarrow> gc < length h2 \<Longrightarrow> h2 ! gc = place G mv PLAYER_O
      \<Longrightarrow> \<exists>s h3. search h2 gc = Some (Inr (s, h3))
            \<and> minimax self (place G mv PLAYER_O) (max_depth self) NegInf PosInf False = Inr s
            \<and> take (length h2) h3 = h2"
    and G: "valid_board (board G)" "set ms \<subseteq> set (get_valid_moves G)"
    and h: "game < length h" "h ! game = G"
  shows "\<exists>L h'. best_loop_st search self h game ms bs bm = Some (Inr (L, h'))
           \<and> best_loop (move_score self G) ms bs bm = Inr L \<and> take (length h) h' = h"
  using search G(2) h
proof (induction ms arbitrary: h bs bm)
  case Nil
  then show ?case by simp
next
  case (Cons mv ms)
  have mvG: "mv \<in> set (get_valid_moves G)"
    using Cons.prems(2) by simp
  then have mv: "mv \<in> set (get_valid_moves (h ! game))"
    using Cons.prems(4) by simp
  have c: "clone_and_move h game mv PLAYER_O = Inr (length h, h @ [place G mv PLAYER_O])"
    using clone_and_move_valid [OF Cons.prems(3) _ mv, of PLAYER_O] G(1) Cons.prems(4) by simp
  let ?h2 = "h @ [place G mv PLAYER_O]"
  obtain s0 h3 where s0: "search ?h2 (length h) = Some (Inr (s0, h3))"
    "minimax self (place G mv PLAYER_O) (max_depth self) NegInf PosInf False = Inr s0"
    "take (length ?h2) h3 = ?h2"
    using Cons.prems(1) [of mv "length h" ?h2] by auto
  have "0 \<le> mv" "mv < 9"
    using mvG G(1) by (auto simp: get_valid_moves_iff valid_board_def)
  then obtain s1 where s1: "add_position_weight self mv s0 = Inr s1"
    using add_position_weight_total by blast
  have ms1: "move_score self G mv = Inr s1"
    using move_score_place [OF G(1) mvG s0(2)] s1 by simp
  have f: "take (length h) h3 = h"
    using take_frame_trans [of h ?h2 h3] s0(3) by simp
  have g3: "game < length h3" "h3 ! game = G"
    using f Cons.prems(3,4) take_frame_nth [OF f Cons.prems(3)]
    by (auto simp: dest: arg_cong [where f = length])
  have search': "\<And>h2 gc mv'. mv' \<in> set ms \<Longrightarrow> gc < length h2
      \<Longrightarrow> h2 ! gc = place G mv' PLAYER_O
      \<Longrightarrow> \<exists>s h3. search h2 gc = Some (Inr (s, h3))
            \<and> minimax self (place G mv' PLAYER_O) (max_depth self) NegInf PosInf False = Inr s
            \<and> take (length h2) h3 = h2"
    using Cons.prems(1) by simp
  have sub: "set ms \<subseteq> set (get_valid_moves G)"
    using Cons.prems(2) by simp
  have step: "\<exists>L h'. best_loop_st search self h3 game ms bs' bm' = Some (Inr (L, h'))
           \<and> best_loop (move_score self G) ms bs' bm' = Inr L \<and> take (length h) h' = h"
    for bs' bm'
    using Cons.IH [OF search' sub g3, of bs' bm'] take_frame_trans [OF f] by blast
  show ?case
    using step [of s1 "[mv]"] step [of bs "bm @ [mv]"] step [of bs bm]
    by (simp add: c s0 s1 ms1)
qed

lemma get_ai_move_st_correct:
  assumes "game < length h" "valid_board (board (h ! game))" "9 \<le> fuel"
  shows "\<exists>res h'. get_ai_move_st fuel self h game u k = Some (Inr (res, h'))
           \<and> get_ai_move self (h ! game) u k = Inr res"
proof -
  let ?G = "h ! game"
  obtain res where res: "get_ai_move self ?G u k = Inr res"
    using get_ai_move_result [OF assms(2), of self u k] by blast
  consider "get_valid_moves ?G = []"
    | "get_valid_moves ?G \<noteq> []" "u < randomization self"
    | "get_valid_moves ?G \<noteq> []" "\<not> u < randomization self"
    by blast
  then show ?thesis
  proof cases
    case 1
    then show ?thesis
      by (simp add: get_ai_move_st_def get_ai_move_def)
  next
    case 2
    obtain x where "random_choice k (get_valid_moves ?G) = Inr x"
      using random_choice_mem [OF 2(1)] by blast
    with 2 show ?thesis
      by (simp add: get_ai_move_st_def get_ai_move_def)
  next
    case 3
    have "\<exists>L h'. best_loop_st
           (\<lambda>h2 gc. minimax_st fuel self h2 gc (max_depth self) NegInf PosInf False)
           self h game (get_valid_moves ?G) NegInf [] = Some (Inr (L, h'))
         \<and> best_loop (move_score self ?G) (get_valid_moves ?G) NegInf [] = Inr L
         \<and> take (length h) h' = h"
    proof (rule best_loop_st_correct [where G = ?G])
      fix h2 gc mv
      assume a: "mv \<in> set (get_valid_moves ?G)" "gc < length h2" "h2 ! gc = place ?G mv PLAYER_O"
      have "empties (board (place ?G mv PLAYER_O)) < empties (board ?G)"
        using empties_place [OF assms(2) a(1)] by simp
      moreover have "empties (board ?G) \<le> 9"
        using assms(2) count_le_length [of "board ?G" EMPTY]
        by (simp add: empties_def valid_board_def)
      ultimately have "empties (board (h2 ! gc)) < fuel"
        using assms(3) a(3) by simp
      then show "\<exists>s h3. minimax_st fuel self h2 gc (max_depth self) NegInf PosInf False
              = Some (Inr (s, h3))
            \<and> minimax self (place ?G mv PLAYER_O) (max_depth self) NegInf PosInf False = Inr s
            \<and> take (length h2) h3 = h2"
        using minimax_st_correct [OF a(2), of fuel self "max_depth self" NegInf PosInf False]
          valid_board_place [OF assms(2), of PLAYER_O mv] a(3) by simp
    qed (use assms in simp_all)
    then obtain L h' where L: "best_loop_st
           (\<lambda>h2 gc. minimax_st fuel self h2 gc (max_depth self) NegInf PosInf False)
           self h game (get_valid_moves ?G) NegInf [] = Some (Inr (L, h'))"
      "best_loop (move_score self ?G) (get_valid_moves ?G) NegInf [] = Inr L"
      by blast
    then obtain x where "random_choice k L = Inr x"
      using res 3 by (auto simp: get_ai_move_def split: sum.splits)
    with 3 L show ?thesis
      by (simp add: get_ai_move_st_def get_ai_move_def)
  qed
qed

text \<open>
  Claim C10. \<open>get_ai_move\<close> on the store: whenever it returns, for every board,
  configuration and random draws, the object of the caller's game is what it was before
  the call, and so is every object that existed then; the moves of the search are all
  made on objects allocated during the call. On a board of nine cells over blank, 'X'
  and 'O' it does return (with fuel for the nine levels a search can have), with the
  result of \<open>get_ai_move\<close> on the board as a value.
\<close>

theorem get_ai_move_st_keeps_store:
  assumes "game < length h"
  shows "(\<forall>res h'. get_ai_move_st fuel self h game u k = Some (Inr (res, h')) \<longrightarrow>
            h' ! game = h ! game \<and> take (length h) h' = h)
       \<and> (valid_board (board (h ! game)) \<and> 9 \<le> fuel \<longrightarrow>
            (\<exists>res h'. get_ai_move_st fuel self h game u k = Some (Inr (res, h'))
               \<and> get_ai_move self (h ! game) u k = Inr res
               \<and> h' ! game = h ! game))"
proof -
  have frame: "h' ! game = h ! game \<and> take (length h) h' = h"
    if "get_ai_move_st fuel self h game u k = Some (Inr (res, h'))" for res h'
  proof -
    have "take (length h) h' = h"
      using that by (rule get_ai_move_st_frame)
    moreover from this assms have "h' ! game = h ! game"
      by (rule take_frame_nth)
    ultimately show ?thesis by simp
  qed
  moreover have "\<exists>res h'. get_ai_move_st fuel self h game u k = Some (Inr (res, h'))
               \<and> get_ai_move self (h ! game) u k = Inr res
               \<and> h' ! game = h ! game"
    if "valid_board (board (h ! game))" "9 \<le> fuel"
    using get_ai_move_st_correct [OF assms that, of self u k] frame by blast
  ultimately show ?thesis by blast
qed

theorem get_ai_move_st_keeps_store_witness:
  "(0::nat) < length [\<lparr>board = ''XOXXOO X ''\<rparr>]
   \<and> valid_board (board ([\<lparr>board = ''XOXXOO X ''\<rparr>] ! 0))
   \<and> get_ai_move_st 9 \<lparr>difficulty = ''hard'', max_depth = 9, randomization = 0,
        use_position_weights = True\<rparr> [\<lparr>board = ''XOXXOO X ''\<rparr>] 0 0 0
       = Some (Inr (Some 6,
           [\<lparr>board = ''XOXXOO X ''\<rparr>, \<lparr>board = ''XOXXOOOX ''\<rparr>,
            \<lparr>board = ''XOXXOOOXX''\<rparr>, \<lparr>board = ''XOXXOO XO''\<rparr>,
            \<lparr>board = ''XOXXOOXXO''\<rparr>]))
   \<and> [\<lparr>board = ''XOXXOO X ''\<rparr>, \<lparr>board = ''XOXXOOOX ''\<rparr>,
            \<lparr>board = ''XOXXOOOXX''\<rparr>, \<lparr>board = ''XOXXOO XO''\<rparr>,
            \<lparr>board = ''XOXXOOXXO''\<rparr>] ! 0 = [\<lparr>board = ''XOXXOO X ''\<rparr>] ! 0
   \<and> (\<exists>res h'. get_ai_move_st 9 \<lparr>difficulty = ''hard'', max_depth = 9, randomization = 0,
        use_position_weights = True\<rparr> [\<lparr>board = ''XOXXOO X ''\<rparr>] 0 0 0 = Some (Inr (res, h'))
       \<and> get_ai_move \<lparr>difficulty = ''hard'', max_depth = 9, randomization = 0,
        use_position_weights = True\<rparr> ([\<lparr>board = ''XOXXOO X ''\<rparr>] ! 0) 0 0 = Inr res
       \<and> h' ! 0 = [\<lparr>board = ''XOXXOO X ''\<rparr>] ! 0)"
proof -
  have l: "(0::nat) < length [\<lparr>board = ''XOXXOO X ''\<rparr>]"
    by simp
  have v: "valid_board (board ([\<lparr>board = ''XOXXOO X ''\<rparr>] ! 0))"
    by code_simp
  have nine: "(9::nat) \<le> 9"
    by simp
  have run: "get_ai_move_st 9 \<lparr>difficulty = ''hard'', max_depth = 9, randomization = 0,
        use_position_weights = True\<rparr> [\<lparr>board = ''XOXXOO X ''\<rparr>] 0 0 0
       = Some (Inr (Some 6,
           [\<lparr>board = ''XOXXOO X ''\<rparr>, \<lparr>board = ''XOXXOOOX ''\<rparr>,
            \<lparr>board = ''XOXXOOOXX''\<rparr>, \<lparr>board = ''XOXXOO XO''\<rparr>,
            \<lparr>board = ''XOXXOOXXO''\<rparr>]))"
    by code_simp
  note t = get_ai_move_st_keeps_store [OF l, of 9 "\<lparr>difficulty = ''hard'', max_depth = 9,
        randomization = 0, use_position_weights = True\<rparr>" 0 0]
  note f = t [THEN conjunct1, rule_format, OF run, THEN conjunct1]
  note e = t [THEN conjunct2, THEN mp, OF conjI [OF v nine]]
  show ?thesis
    by (intro conjI) (fact l v run f e)+
qed

lemma o_holds_start: "o_holds 10 True \<lparr>board = replicate 9 EMPTY\<rparr>"
  by code_simp

lemma o_holds_safe:
  assumes "o_holds n x_to_move g" "valid_board (board g)"
  shows "o_safe g (if x_to_move then PLAYER_X else PLAYER_O)"
  using assms
proof (induction n arbitrary: x_to_move g)
  case 0
  then show ?case by simp
next
  case (Suc n)
  obtain over w where cw: "check_winner g = Inr (over, w)"
    using check_winner_total [OF Suc.prems(2)] by blast
  show ?case
  proof (cases over)
    case True
    with Suc.prems(1) cw show ?thesis
      by (auto intro: o_safe.over)
  next
    case False
    then have cw': "check_winner g = Inr (False, None)"
      using cw check_winner_valid [OF Suc.prems(2)] by (auto split: option.splits if_splits)
    show ?thesis
    proof (cases x_to_move)
      case True
      have "o_safe (place g mv PLAYER_X) PLAYER_O" if "mv \<in> set (get_valid_moves g)" for mv
      proof -
        have "o_holds n False (place g mv PLAYER_X)"
          using Suc.prems(1) cw' True that by (simp add: list_all_iff)
        from Suc.IH [OF this] valid_board_place [OF Suc.prems(2)] show ?thesis
          by simp
      qed
      with cw' True show ?thesis
        by (auto intro: o_safe.x_moves)
    next
      case False
      let ?mv = "o_reply (board g)"
      have mv: "?mv \<in> set (get_valid_moves g)" "o_holds n True (place g ?mv PLAYER_O)"
        using Suc.prems(1) cw' False by (auto simp: Let_def split: if_splits)
      have "o_safe (place g ?mv PLAYER_O) PLAYER_X"
        using Suc.IH [OF mv(2)] valid_board_place [OF Suc.prems(2)] by simp
      with cw' mv(1) False show ?thesis
        by (auto intro: o_safe.o_moves)
    qed
  qed
qed

lemma valid_board_start: "valid_board (replicate 9 EMPTY)"
  by (simp add: valid_board_def)

lemma o_safe_start: "o_safe \<lparr>board = replicate 9 EMPTY\<rparr> PLAYER_X"
  using o_holds_safe [OF o_holds_start] valid_board_start by simp

lemma minimax_nocut_search_value:
  assumes "valid_board (board g)"
  shows "minimax_nocut self g depth alpha beta is_max = Inr (search_value self g depth is_max)"
proof -
  obtain v where v: "minimax self g depth NegInf PosInf is_max = Inr v"
    using minimax_total [OF assms] by blast
  have "minimax_nocut self g depth a b is_max = Inr v" for a b
    using minimax_eq_nocut [OF assms, of self depth is_max a b] v by simp
  then show ?thesis
    by (simp add: search_value_def)
qed

lemma minimax_search_value:
  assumes "valid_board (board g)"
  shows "minimax self g depth NegInf PosInf is_max = Inr (search_value self g depth is_max)"
  using minimax_eq_nocut [OF assms, of self depth is_max NegInf PosInf]
    minimax_nocut_search_value [OF assms, of self depth NegInf PosInf is_max]
  by simp

lemma Max_insert_max:
  fixes m x :: "'a :: linorder"
  assumes "finite S"
  shows "Max (insert (max m x) S) = Max (insert m (insert x S))"
  using assms by (cases "S = {}") (simp_all add: max.assoc)

lemma Min_insert_min:
  fixes m x :: "'a :: linorder"
  assumes "finite S"
  shows "Min (insert (min m x) S) = Min (insert m (insert x S))"
  using assms by (cases "S = {}") (simp_all add: min.assoc)

lemma max_loop_nocut_Max:
  assumes "\<And>mv a. mv \<in> set ms \<Longrightarrow> child mv a = Inr (val mv)"
  shows "max_loop_nocut child ms m alpha beta = Inr (Max (insert m (val ` set ms)))"
  using assms
proof (induction ms arbitrary: m alpha)
  case Nil
  then show ?case by simp
next
  case (Cons mv ms)
  have "Max (insert (max m (val mv)) (val ` set ms)) = Max (insert m (val ` set (mv # ms)))"
    using Max_insert_max [of "val ` set ms" m "val mv"] by simp
  then show ?case
    using Cons by simp
qed

lemma min_loop_nocut_Min:
  assumes "\<And>mv b. mv \<in> set ms \<Longrightarrow> child mv b = Inr (val mv)"
  shows "min_loop_nocut child ms m alpha beta = Inr (Min (insert m (val ` set ms)))"
  using assms
proof (induction ms arbitrary: m beta)
  case Nil
  then show ?case by simp
next
  case (Cons mv ms)
  have "Min (insert (min m (val mv)) (val ` set ms)) = Min (insert m (val ` set (mv # ms)))"
    using Min_insert_min [of "val ` set ms" m "val mv"] by simp
  then show ?case
    using Cons by simp
qed

lemma search_value_over:
  assumes "check_winner g = Inr (True, w)"
  shows "search_value self g depth is_max =
     (if w = Some PLAYER_O then Fin (of_int (100 + depth))
      else if w = Some PLAYER_X then Fin (of_int (- 100 - depth))
      else Fin 0)"
  using assms minimax_nocut.simps [of self g depth NegInf PosInf is_max]
  by (simp add: search_value_def)

lemma search_value_max:
  assumes "valid_board (board g)" "check_winner g = Inr (False, w)" "depth \<noteq> 0"
  shows "search_value self g depth True =
     Max (insert NegInf
       ((\<lambda>mv. search_value self (place g mv PLAYER_O) (depth - 1) False)
          ` set (get_valid_moves g)))"
proof -
  have "max_loop_nocut
      (\<lambda>mv a. minimax_nocut self (place g mv PLAYER_O) (depth - 1) a PosInf False)
      (get_valid_moves g) NegInf NegInf PosInf
    = Inr (Max (insert NegInf
       ((\<lambda>mv. search_value self (place g mv PLAYER_O) (depth - 1) False)
          ` set (get_valid_moves g))))"
    by (rule max_loop_nocut_Max)
      (simp add: minimax_nocut_search_value valid_board_place [OF assms(1)])
  then show ?thesis
    using minimax_nocut_max_valid [OF assms, of self NegInf PosInf]
    by (simp add: search_value_def)
qed

lemma search_value_min:
  assumes "valid_board (board g)" "check_winner g = Inr (False, w)" "depth \<noteq> 0"
  shows "search_value self g depth False =
     Min (insert PosInf
       ((\<lambda>mv. search_value self (place g mv PLAYER_X) (depth - 1) True)
          ` set (get_valid_moves g)))"
proof -
  have "min_loop_nocut
      (\<lambda>mv b. minimax_nocut self (place g mv PLAYER_X) (depth - 1) NegInf b True)
      (get_valid_moves g) PosInf NegInf PosInf
    = Inr (Min (insert PosInf
       ((\<lambda>mv. search_value self (place g mv PLAYER_X) (depth - 1) True)
          ` set (get_valid_moves g))))"
    by (rule min_loop_nocut_Min)
      (simp add: minimax_nocut_search_value valid_board_place [OF assms(1)])
  then show ?thesis
    using minimax_nocut_min_valid [OF assms, of self NegInf PosInf]
    by (simp add: search_value_def)
qed

lemma not_over_has_move:
  assumes "valid_board (board g)" "check_winner g = Inr (False, w)"
  shows "w = None" "get_valid_moves g \<noteq> []" "0 < empties (board g)"
proof -
  have e: "EMPTY \<in> set (board g)" and w: "w = None"
    using assms(2) check_winner_valid [OF assms(1)]
    by (auto split: option.splits if_splits)
  show "w = None" by (rule w)
  show "get_valid_moves g \<noteq> []"
    using e by (simp add: get_valid_moves_Nil)
  show "0 < empties (board g)"
    using e count_list_0_iff [of "board g" EMPTY] by (simp add: empties_def)
qed

lemma over_winner_cases:
  assumes "valid_board (board g)" "check_winner g = Inr (True, w)"
  shows "w = Some PLAYER_X \<or> w = Some PLAYER_O \<or> w = None"
proof -
  have "find (some_player_won (board g)) WINNING_COMBINATIONS = Some c \<Longrightarrow>
      board g ! nat (fst c) = PLAYER_X \<or> board g ! nat (fst c) = PLAYER_O" for c
    by (auto simp: find_Some_iff some_player_won_def dest: line_won_fst)
  then show ?thesis
    using assms(2) check_winner_valid [OF assms(1)]
    by (auto split: option.splits if_splits)
qed

lemma empties_place_Suc:
  assumes "valid_board (board g)" "mv \<in> set (get_valid_moves g)" "p = PLAYER_X \<or> p = PLAYER_O"
  shows "Suc (empties (board (place g mv p))) = empties (board g)"
proof -
  have "nat mv < length (board g)" "board g ! nat mv = EMPTY"
    using assms(2) by (auto simp: get_valid_moves_iff)
  moreover have "p \<noteq> EMPTY"
    using assms(3) by (auto simp: EMPTY_def PLAYER_X_def PLAYER_O_def)
  ultimately show ?thesis
    unfolding empties_def place_def by (simp add: count_list_update)
qed

lemma o_safe_over_iff:
  assumes "check_winner g = Inr (True, w)"
  shows "o_safe g p \<longleftrightarrow> w \<noteq> Some PLAYER_X"
  using assms by (auto intro: o_safe.over elim: o_safe.cases)

lemma o_safe_X_iff:
  assumes "check_winner g = Inr (False, None)"
  shows "o_safe g PLAYER_X \<longleftrightarrow>
     (\<forall>mv \<in> set (get_valid_moves g). o_safe (place g mv PLAYER_X) PLAYER_O)"
proof
  assume "o_safe g PLAYER_X"
  then show "\<forall>mv \<in> set (get_valid_moves g). o_safe (place g mv PLAYER_X) PLAYER_O"
    using assms by cases (auto simp: PLAYER_X_def PLAYER_O_def)
next
  assume "\<forall>mv \<in> set (get_valid_moves g). o_safe (place g mv PLAYER_X) PLAYER_O"
  with assms show "o_safe g PLAYER_X"
    by (rule o_safe.x_moves)
qed

lemma o_safe_O_iff:
  assumes "check_winner g = Inr (False, None)"
  shows "o_safe g PLAYER_O \<longleftrightarrow>
     (\<exists>mv \<in> set (get_valid_moves g). o_safe (place g mv PLAYER_O) PLAYER_X)"
proof
  assume "o_safe g PLAYER_O"
  then show "\<exists>mv \<in> set (get_valid_moves g). o_safe (place g mv PLAYER_O) PLAYER_X"
    using assms by cases (auto simp: PLAYER_X_def PLAYER_O_def)
next
  assume "\<exists>mv \<in> set (get_valid_moves g). o_safe (place g mv PLAYER_O) PLAYER_X"
  with assms show "o_safe g PLAYER_O"
    by (auto intro: o_safe.o_moves)
qed

lemma Fin_le_iff [simp]: "Fin x \<le> Fin y \<longleftrightarrow> x \<le> y"
  by simp

lemma Fin_less_iff [simp]: "Fin x < Fin y \<longleftrightarrow> x < y"
  by (auto simp: less_score_def)

lemma not_PosInf_le_Fin [simp]: "\<not> PosInf \<le> Fin x" "\<not> Fin x \<le> NegInf"
  by simp_all

text \<open>
  For a search that reaches the end of every game (depth at least the number of blank
  cells): the score is at least \<open>-100 - depth\<close>, and more than that by one when the
  game is not over; it is either at least 0 or at most -100; and it is at least 0
  exactly when 'O' can avoid losing.
\<close>

lemma search_value_full_depth:
  assumes "valid_board (board g)" "int (empties (board g)) \<le> depth"
  shows "Fin (of_int (- 100 - depth)) \<le> search_value self g depth is_max
       \<and> (check_winner g = Inr (False, None) \<longrightarrow>
            Fin (of_int (- 99 - depth)) \<le> search_value self g depth is_max)
       \<and> (Fin 0 \<le> search_value self g depth is_max
            \<or> search_value self g depth is_max \<le> Fin (- 100))
       \<and> (Fin 0 \<le> search_value self g depth is_max
            \<longleftrightarrow> o_safe g (if is_max then PLAYER_O else PLAYER_X))"
  using assms
proof (induction g arbitrary: depth is_max rule: valid_board_induct)
  case (step g)
  have d0: "0 \<le> depth" using step.prems by simp
  obtain over w where cw: "check_winner g = Inr (over, w)"
    using check_winner_total [OF step.hyps] by blast
  show ?case
  proof (cases over)
    case True
    then have cwt: "check_winner g = Inr (True, w)" using cw by simp
    have XO: "PLAYER_X \<noteq> PLAYER_O" by (simp add: PLAYER_X_def PLAYER_O_def)
    from over_winner_cases [OF step.hyps cwt] show ?thesis
      using d0 XO by (auto simp: search_value_over [OF cwt] o_safe_over_iff [OF cwt] cwt)
  next
    case False
    then have cw': "check_winner g = Inr (False, None)"
      using cw not_over_has_move(1) [OF step.hyps, of w] by simp
    have ne: "get_valid_moves g \<noteq> []" and pos: "0 < empties (board g)"
      using not_over_has_move(2,3) [OF step.hyps cw'] by simp_all
    have dn: "depth \<noteq> 0" using pos step.prems by simp
    let ?S = "set (get_valid_moves g)"
    have kid: "Fin (of_int (- 100 - (depth - 1))) \<le> search_value self (place g mv p) (depth - 1) m
       \<and> (Fin 0 \<le> search_value self (place g mv p) (depth - 1) m
            \<or> search_value self (place g mv p) (depth - 1) m \<le> Fin (- 100))
       \<and> (Fin 0 \<le> search_value self (place g mv p) (depth - 1) m
            \<longleftrightarrow> o_safe (place g mv p) (if m then PLAYER_O else PLAYER_X))"
      if "mv \<in> ?S" "p = PLAYER_X \<or> p = PLAYER_O" for mv p m
    proof -
      have "int (empties (board (place g mv p))) \<le> depth - 1"
        using empties_place_Suc [OF step.hyps that] step.prems by simp
      from step.IH [OF that this, of m] show ?thesis by blast
    qed
    obtain mv0 where mv0: "mv0 \<in> ?S"
      using ne by (cases "get_valid_moves g") auto
    show ?thesis
    proof (cases is_max)
      case True
      let ?f = "\<lambda>mv. search_value self (place g mv PLAYER_O) (depth - 1) False"
      let ?A = "insert NegInf (?f ` ?S)"
      have v: "search_value self g depth True = Max ?A"
        by (rule search_value_max [OF step.hyps cw' dn])
      have fin: "finite ?A" "?A \<noteq> {}" by simp_all
      have ge: "c \<le> Max ?A \<longleftrightarrow> c \<le> NegInf \<or> (\<exists>mv \<in> ?S. c \<le> ?f mv)" for c
        using Max_ge_iff [OF fin, of c] by auto
      have le: "Max ?A \<le> c \<longleftrightarrow> (\<forall>mv \<in> ?S. ?f mv \<le> c)" for c
        using Max_le_iff [OF fin, of c] by auto
      have low: "Fin (of_int (- 99 - depth)) \<le> Max ?A"
      proof -
        have "Fin (of_int (- 99 - depth)) \<le> ?f mv0"
          using kid [OF mv0, of PLAYER_O False] by (simp add: algebra_simps)
        with mv0 show ?thesis unfolding ge by blast
      qed
      have low': "Fin (of_int (- 100 - depth)) \<le> Max ?A"
        by (rule order_trans [OF _ low]) simp
      have gap: "Fin 0 \<le> Max ?A \<or> Max ?A \<le> Fin (- 100)"
        unfolding ge le using kid [of _ PLAYER_O False] by auto
      have safe: "Fin 0 \<le> Max ?A \<longleftrightarrow> o_safe g PLAYER_O"
        unfolding ge o_safe_O_iff [OF cw'] using kid [of _ PLAYER_O False] by auto
      show ?thesis
        using True low low' gap safe by (simp add: v)
    next
      case False
      let ?f = "\<lambda>mv. search_value self (place g mv PLAYER_X) (depth - 1) True"
      let ?A = "insert PosInf (?f ` ?S)"
      have v: "search_value self g depth False = Min ?A"
        by (rule search_value_min [OF step.hyps cw' dn])
      have fin: "finite ?A" "?A \<noteq> {}" by simp_all
      have ge: "c \<le> Min ?A \<longleftrightarrow> (\<forall>mv \<in> ?S. c \<le> ?f mv)" for c
        using Min_ge_iff [OF fin, of c] by auto
      have le: "Min ?A \<le> c \<longleftrightarrow> PosInf \<le> c \<or> (\<exists>mv \<in> ?S. ?f mv \<le> c)" for c
        using Min_le_iff [OF fin, of c] by auto
      have low: "Fin (of_int (- 99 - depth)) \<le> Min ?A"
        unfolding ge
      proof
        fix mv assume "mv \<in> ?S"
        from kid [OF this, of PLAYER_X True]
        show "Fin (of_int (- 99 - depth)) \<le> ?f mv"
          by (simp add: algebra_simps)
      qed
      have low': "Fin (of_int (- 100 - depth)) \<le> Min ?A"
        by (rule order_trans [OF _ low]) simp
      have gap: "Fin 0 \<le> Min ?A \<or> Min ?A \<le> Fin (- 100)"
        unfolding ge le using kid [of _ PLAYER_X True] by auto
      have safe: "Fin 0 \<le> Min ?A \<longleftrightarrow> o_safe g PLAYER_X"
        unfolding ge o_safe_X_iff [OF cw'] using kid [of _ PLAYER_X True] by auto
      show ?thesis
        using False low low' gap safe by (simp add: v)
    qed
  qed
qed

lemma best_loop_argmax:
  assumes "\<And>mv. mv \<in> set ms \<Longrightarrow> score_of mv = Inr (sc mv)"
    and "\<forall>x \<in> set bm. sc x = bs" "\<forall>y \<in> P. sc y \<le> bs"
    and "best_loop score_of ms bs bm = Inr L"
  shows "\<forall>x \<in> set L. \<forall>y \<in> P \<union> set ms. sc y \<le> sc x"
  using assms
proof (induction ms arbitrary: bs bm P)
  case Nil
  then show ?case by auto
next
  case (Cons mv ms)
  have s: "score_of mv = Inr (sc mv)"
    using Cons.prems(1) by simp
  have rest: "\<And>mv'. mv' \<in> set ms \<Longrightarrow> score_of mv' = Inr (sc mv')"
    using Cons.prems(1) by simp
  consider "bs < sc mv" | "sc mv = bs" | "sc mv < bs"
    by (metis linorder_less_linear)
  then have "\<forall>x \<in> set L. \<forall>y \<in> insert mv P \<union> set ms. sc y \<le> sc x"
  proof cases
    case 1
    then have run: "best_loop score_of ms (sc mv) [mv] = Inr L"
      using Cons.prems(4) s by simp
    have "\<forall>y \<in> insert mv P. sc y \<le> sc mv"
      using Cons.prems(3) 1 by (auto intro: order_trans less_imp_le)
    then show ?thesis
      using Cons.IH [OF rest _ _ run, of "insert mv P"] by simp
  next
    case 2
    then have run: "best_loop score_of ms bs (bm @ [mv]) = Inr L"
      using Cons.prems(4) s by simp
    have "\<forall>x \<in> set (bm @ [mv]). sc x = bs" "\<forall>y \<in> insert mv P. sc y \<le> bs"
      using Cons.prems(2,3) 2 by auto
    then show ?thesis
      using Cons.IH [OF rest _ _ run, of "insert mv P"] by simp
  next
    case 3
    then have "\<not> bs < sc mv" "sc mv \<noteq> bs"
      by auto
    then have run: "best_loop score_of ms bs bm = Inr L"
      using Cons.prems(4) s by simp
    have "\<forall>y \<in> insert mv P. sc y \<le> bs"
      using Cons.prems(3) 3 by auto
    then show ?thesis
      using Cons.IH [OF rest Cons.prems(2) _ run, of "insert mv P"] by simp
  qed
  then show ?case by simp
qed

lemma best_loop_subset:
  assumes "best_loop score_of ms bs bm = Inr L"
  shows "set L \<subseteq> set bm \<union> set ms"
  using assms
proof (induction ms arbitrary: bs bm)
  case Nil
  then show ?case by simp
next
  case (Cons mv ms)
  from Cons.prems obtain s bs' bm' where "best_loop score_of ms bs' bm' = Inr L"
    "set bm' \<subseteq> insert mv (set bm)"
    by (auto split: sum.splits if_splits)
  with Cons.IH [of bs' bm'] show ?case by auto
qed

lemma MinimaxAI_init_hard:
  "MinimaxAI_init ''hard'' = Inr \<lparr>difficulty = ''hard'', max_depth = 9, randomization = 0,
     use_position_weights = True\<rparr>"
  by code_simp

lemma hard_parameters:
  assumes "MinimaxAI_init ''hard'' = Inr ai"
  shows "max_depth ai = 9" "randomization ai = 0" "use_position_weights ai"
  using assms unfolding MinimaxAI_init_hard by auto

lemma POSITION_WEIGHTS_range:
  assumes "0 \<le> mv" "mv < 9"
  shows "2 \<le> POSITION_WEIGHTS ! nat mv" "POSITION_WEIGHTS ! nat mv \<le> 4"
proof -
  have "list_all (\<lambda>w. 2 \<le> w \<and> w \<le> 4) POSITION_WEIGHTS"
    by (simp add: POSITION_WEIGHTS_def)
  moreover have "nat mv < length POSITION_WEIGHTS"
    using assms by (simp add: POSITION_WEIGHTS_def)
  ultimately show "2 \<le> POSITION_WEIGHTS ! nat mv" "POSITION_WEIGHTS ! nat mv \<le> 4"
    by (simp_all add: list_all_length)
qed

text \<open>The score that \<open>get_ai_move\<close> gives to a move when position weights are used.\<close>

lemma move_score_weighted:
  assumes "valid_board (board g)" "mv \<in> set (get_valid_moves g)" "use_position_weights self"
  shows "move_score self g mv =
     Inr (score_add (search_value self (place g mv PLAYER_O) (max_depth self) False)
            (of_int (POSITION_WEIGHTS ! nat mv) * (1 / 10)))"
proof -
  have "0 \<le> mv" "mv < 9"
    using assms(1,2) by (auto simp: get_valid_moves_iff valid_board_def)
  then have "getitem POSITION_WEIGHTS mv = Inr (POSITION_WEIGHTS ! nat mv)"
    by (simp add: getitem_in_range POSITION_WEIGHTS_def)
  then show ?thesis
    using assms(3)
    by (simp add: move_score_def try_move_place [OF assms(1,2)]
        minimax_search_value [OF valid_board_place [OF assms(1)]])
qed

lemma score_add_bounds:
  "Fin c \<le> v \<Longrightarrow> Fin (c + x) \<le> score_add v x"
  "v \<le> Fin c \<Longrightarrow> score_add v x \<le> Fin (c + x)"
  by (cases v; simp)+

text \<open>The move that \<open>get_ai_move\<close> returns without the random skip has the greatest score.\<close>

lemma get_ai_move_best:
  assumes v: "valid_board (board g)" and w: "use_position_weights self"
    and r: "\<not> u < randomization self"
    and m: "get_ai_move self g u k = Inr (Some mv)"
  shows "mv \<in> set (get_valid_moves g)"
    and "\<forall>mv' \<in> set (get_valid_moves g).
           score_add (search_value self (place g mv' PLAYER_O) (max_depth self) False)
             (of_int (POSITION_WEIGHTS ! nat mv') * (1 / 10))
         \<le> score_add (search_value self (place g mv PLAYER_O) (max_depth self) False)
             (of_int (POSITION_WEIGHTS ! nat mv) * (1 / 10))"
proof -
  let ?sc = "\<lambda>mv. score_add (search_value self (place g mv PLAYER_O) (max_depth self) False)
             (of_int (POSITION_WEIGHTS ! nat mv) * (1 / 10))"
  let ?ms = "get_valid_moves g"
  have ne: "?ms \<noteq> []"
    using m by (auto simp: get_ai_move_def)
  then obtain L where L: "best_loop (move_score self g) ?ms NegInf [] = Inr L"
    and c: "random_choice k L = Inr mv"
    using m r by (auto simp: get_ai_move_def split: sum.splits)
  have mvL: "mv \<in> set L"
    using c by (auto simp: random_choice_def split: if_splits)
  have "set L \<subseteq> set ?ms"
    using best_loop_subset [OF L] by simp
  with mvL show "mv \<in> set ?ms" by blast
  have "\<forall>x \<in> set L. \<forall>y \<in> {} \<union> set ?ms. ?sc y \<le> ?sc x"
    by (rule best_loop_argmax [OF _ _ _ L]) (simp_all add: move_score_weighted [OF v _ w])
  with mvL show "\<forall>mv' \<in> set ?ms. ?sc mv' \<le> ?sc mv"
    by simp
qed

lemma check_winner_X_line:
  assumes "valid_board (board g)" "check_winner g = Inr (True, Some PLAYER_X)"
  shows "\<exists>c \<in> set WINNING_COMBINATIONS. line_won (board g) c PLAYER_X"
proof -
  obtain c where c: "find (some_player_won (board g)) WINNING_COMBINATIONS = Some c"
    "board g ! nat (fst c) = PLAYER_X"
    using assms(2) check_winner_valid [OF assms(1)]
    by (auto split: option.splits if_splits)
  then have "c \<in> set WINNING_COMBINATIONS" "some_player_won (board g) c"
    by (auto simp: find_Some_iff)
  moreover have "\<not> line_won (board g) c PLAYER_O"
  proof
    assume "line_won (board g) c PLAYER_O"
    then have "board g ! nat (fst c) = PLAYER_O" by (rule line_won_fst)
    with c(2) show False by (simp add: PLAYER_X_def PLAYER_O_def)
  qed
  ultimately show ?thesis
    by (auto simp: some_player_won_def)
qed

lemma not_over_no_line:
  assumes "valid_board (board g)" "check_winner g = Inr (False, w)"
    "c \<in> set WINNING_COMBINATIONS"
  shows "\<not> line_won (board g) c p \<or> (p \<noteq> PLAYER_X \<and> p \<noteq> PLAYER_O)"
proof -
  have "find (some_player_won (board g)) WINNING_COMBINATIONS = None"
    using assms(2) check_winner_valid [OF assms(1)]
    by (auto split: option.splits if_splits)
  then have "\<not> some_player_won (board g) c"
    using assms(3) by (metis find_None_iff)
  then show ?thesis
    by (auto simp: some_player_won_def)
qed

text \<open>A move of 'O' does not complete a line of 'X'.\<close>

lemma O_move_no_X_win:
  assumes "valid_board (board g)" "check_winner g = Inr (False, w)"
  shows "check_winner (place g mv PLAYER_O) \<noteq> Inr (True, Some PLAYER_X)"
proof
  assume a: "check_winner (place g mv PLAYER_O) = Inr (True, Some PLAYER_X)"
  have v': "valid_board (board (place g mv PLAYER_O))"
    using valid_board_place [OF assms(1)] by simp
  obtain c where c: "c \<in> set WINNING_COMBINATIONS"
    "line_won (board (place g mv PLAYER_O)) c PLAYER_X"
    using check_winner_X_line [OF v' a] by blast
  obtain i j k where ijk: "c = (i, j, k)" by (cases c)
  have XO: "PLAYER_X \<noteq> PLAYER_O" by (simp add: PLAYER_X_def PLAYER_O_def)
  have "b[n := PLAYER_O] ! x = PLAYER_X \<Longrightarrow> b ! x = PLAYER_X" for b :: string and n x
    using XO by (cases "x = n"; cases "n < length b") (auto simp: list_update_beyond not_less)
  then have "line_won (board g) c PLAYER_X"
    using c(2) by (auto simp: ijk line_won_def place_def)
  with not_over_no_line [OF assms c(1), of PLAYER_X] show False
    by simp
qed

lemma x_wins_next_value:
  assumes v: "valid_board (board g)" and x: "x_wins_next g"
  shows "search_value self g 9 False \<le> Fin (- 108)"
proof -
  have cw: "check_winner g = Inr (False, None)"
    using x by (simp add: x_wins_next_def)
  obtain mv where mv: "mv \<in> set (get_valid_moves g)"
    "check_winner (place g mv PLAYER_X) = Inr (True, Some PLAYER_X)"
    using x by (auto simp: x_wins_next_def list_ex_iff)
  let ?f = "\<lambda>mv. search_value self (place g mv PLAYER_X) (9 - 1) True"
  have XO: "PLAYER_X \<noteq> PLAYER_O" by (simp add: PLAYER_X_def PLAYER_O_def)
  have "?f mv = Fin (- 108)"
    using search_value_over [OF mv(2), of self "9 - 1" True] XO by simp
  moreover have "search_value self g 9 False = Min (insert PosInf (?f ` set (get_valid_moves g)))"
    by (rule search_value_min [OF v cw]) simp
  moreover have "Min (insert PosInf (?f ` set (get_valid_moves g))) \<le> ?f mv"
    using mv(1) by (intro Min_le) auto
  ultimately show ?thesis by simp
qed

lemma empties_le_9:
  assumes "valid_board (board g)"
  shows "empties (board g) \<le> 9"
  using assms count_le_length [of "board g" EMPTY] by (simp add: empties_def valid_board_def)

lemma no_x_win_next_value:
  assumes v: "valid_board (board g)" and e: "empties (board g) \<le> 8"
    and nx: "check_winner g \<noteq> Inr (True, Some PLAYER_X)" and x: "\<not> x_wins_next g"
  shows "Fin (- 107) \<le> search_value self g 9 False"
proof -
  obtain over w where cw: "check_winner g = Inr (over, w)"
    using check_winner_total [OF v] by blast
  show ?thesis
  proof (cases over)
    case True
    then have cwt: "check_winner g = Inr (True, w)" using cw by simp
    from over_winner_cases [OF v cwt] nx cwt show ?thesis
      by (auto simp: search_value_over [OF cwt])
  next
    case False
    then have cw': "check_winner g = Inr (False, None)"
      using cw not_over_has_move(1) [OF v, of w] by simp
    let ?S = "set (get_valid_moves g)"
    let ?f = "\<lambda>mv. search_value self (place g mv PLAYER_X) (9 - 1) True"
    have sv: "search_value self g 9 False = Min (insert PosInf (?f ` ?S))"
      by (rule search_value_min [OF v cw']) simp
    have kid: "Fin (- 107) \<le> ?f mv" if mv: "mv \<in> ?S" for mv
    proof -
      let ?g' = "place g mv PLAYER_X"
      have v': "valid_board (board ?g')"
        using valid_board_place [OF v] by simp
      have e': "int (empties (board ?g')) \<le> 8"
        using empties_place_Suc [OF v mv, of PLAYER_X] e by simp
      have nw: "check_winner ?g' \<noteq> Inr (True, Some PLAYER_X)"
        using x cw' mv by (auto simp: x_wins_next_def list_ex_iff)
      obtain over' w' where cw2: "check_winner ?g' = Inr (over', w')"
        using check_winner_total [OF v'] by blast
      show ?thesis
      proof (cases over')
        case True
        then have cwt: "check_winner ?g' = Inr (True, w')" using cw2 by simp
        from over_winner_cases [OF v' cwt] nw cwt show ?thesis
          by (auto simp: search_value_over [OF cwt])
      next
        case False
        then have "check_winner ?g' = Inr (False, None)"
          using cw2 not_over_has_move(1) [OF v', of w'] by simp
        then have "Fin (of_int (- 99 - 8)) \<le> search_value self ?g' 8 True"
          using search_value_full_depth [OF v' e', of self True] by blast
        then show ?thesis by simp
      qed
    qed
    have "Fin (- 107) \<le> Min (insert PosInf (?f ` ?S))"
      using kid by (subst Min_ge_iff) auto
    then show ?thesis by (simp add: sv)
  qed
qed

lemma make_move_place:
  assumes "valid_board (board g)" "make_move g position [p] = Inr (True, g')"
  shows "g' = place g position p" "position \<in> set (get_valid_moves g)"
    "p = PLAYER_X \<or> p = PLAYER_O"
proof -
  have ok: "0 \<le> position" "position \<le> 8" "p = PLAYER_X \<or> p = PLAYER_O"
    "board g ! nat position = EMPTY" and g': "g' = g\<lparr>board := (board g)[nat position := p]\<rparr>"
    using assms(2) by (auto simp: make_move_valid [OF assms(1)] split: if_splits)
  show "g' = place g position p"
    by (simp add: g' place_def)
  show "position \<in> set (get_valid_moves g)"
    using ok assms(1) by (simp add: get_valid_moves_iff valid_board_def)
  show "p = PLAYER_X \<or> p = PLAYER_O"
    by (rule ok)
qed

lemma place_make_move:
  assumes "valid_board (board g)" "mv \<in> set (get_valid_moves g)" "p = PLAYER_X \<or> p = PLAYER_O"
  shows "make_move g mv [p] = Inr (True, place g mv p)"
proof -
  have "0 \<le> mv" "mv \<le> 8" "board g ! nat mv = EMPTY"
    using assms(1,2) by (auto simp: get_valid_moves_iff valid_board_def)
  then show ?thesis
    using assms(3) by (auto simp: make_move_valid [OF assms(1)] place_def)
qed

lemma reachable_valid:
  assumes "reachable g p"
  shows "valid_board (board g)"
  using assms
proof (induction rule: reachable.induct)
  case start
  show ?case by (simp add: valid_board_start)
next
  case (move g p position g')
  from make_move_place [OF move.IH move.hyps(3)] valid_board_place [OF move.IH]
  show ?case by simp
qed

text \<open>At the hard level the move chosen keeps 'O' from losing when some move does.\<close>

lemma hard_move_safe:
  assumes ai: "max_depth ai = 9" "randomization ai = 0" "use_position_weights ai"
    and v: "valid_board (board g)" and cw: "check_winner g = Inr (False, None)"
    and u: "0 \<le> u" and m: "get_ai_move ai g u k = Inr (Some mv)"
    and s: "o_safe g PLAYER_O"
  shows "o_safe (place g mv PLAYER_O) PLAYER_X"
proof -
  let ?sv = "\<lambda>mv. search_value ai (place g mv PLAYER_O) 9 False"
  let ?w = "\<lambda>mv. rat_of_int (POSITION_WEIGHTS ! nat mv) * (1 / 10)"
  have nr: "\<not> u < randomization ai" using u ai(2) by simp
  have mv: "mv \<in> set (get_valid_moves g)"
    and best: "\<forall>mv' \<in> set (get_valid_moves g).
        score_add (?sv mv') (?w mv') \<le> score_add (?sv mv) (?w mv)"
    using get_ai_move_best [OF v ai(3) nr m] by (simp_all add: ai(1))
  obtain mv' where mv': "mv' \<in> set (get_valid_moves g)" "o_safe (place g mv' PLAYER_O) PLAYER_X"
    using s o_safe_O_iff [OF cw] by blast
  have full: "Fin 0 \<le> ?sv x \<or> ?sv x \<le> Fin (- 100)"
    "Fin 0 \<le> ?sv x \<longleftrightarrow> o_safe (place g x PLAYER_O) PLAYER_X"
    if "x \<in> set (get_valid_moves g)" for x
  proof -
    have "int (empties (board (place g x PLAYER_O))) \<le> 9"
      using empties_place_Suc [OF v that, of PLAYER_O] empties_le_9 [OF v] by simp
    moreover have "valid_board (board (place g x PLAYER_O))"
      using valid_board_place [OF v] by simp
    ultimately have f: "Fin (of_int (- 100 - 9)) \<le> ?sv x
       \<and> (check_winner (place g x PLAYER_O) = Inr (False, None) \<longrightarrow>
            Fin (of_int (- 99 - 9)) \<le> ?sv x)
       \<and> (Fin 0 \<le> ?sv x \<or> ?sv x \<le> Fin (- 100))
       \<and> (Fin 0 \<le> ?sv x
            \<longleftrightarrow> o_safe (place g x PLAYER_O) (if False then PLAYER_O else PLAYER_X))"
      by (rule search_value_full_depth [rotated])
    show "Fin 0 \<le> ?sv x \<or> ?sv x \<le> Fin (- 100)"
      using f by (elim conjE)
    show "Fin 0 \<le> ?sv x \<longleftrightarrow> o_safe (place g x PLAYER_O) PLAYER_X"
      using f by (elim conjE) simp
  qed
  have range: "2 / 10 \<le> ?w x" "?w x \<le> 4 / 10" if "x \<in> set (get_valid_moves g)" for x
  proof -
    have "0 \<le> x" "x < 9"
      using that v by (auto simp: get_valid_moves_iff valid_board_def)
    from POSITION_WEIGHTS_range [OF this] show "2 / 10 \<le> ?w x" "?w x \<le> 4 / 10"
      by simp_all
  qed
  have "Fin 0 \<le> ?sv mv'"
    using full(2) [OF mv'(1)] mv'(2) by simp
  then have "Fin (0 + ?w mv') \<le> score_add (?sv mv') (?w mv')"
    by (rule score_add_bounds)
  moreover have "Fin (2 / 10) \<le> Fin (0 + ?w mv')"
    using range(1) [OF mv'(1)] by simp
  moreover note best [rule_format, OF mv'(1)]
  ultimately have lo: "Fin (2 / 10) \<le> score_add (?sv mv) (?w mv)"
    by (blast intro: order_trans)
  have "Fin 0 \<le> ?sv mv"
  proof (rule ccontr)
    assume "\<not> Fin 0 \<le> ?sv mv"
    then have "?sv mv \<le> Fin (- 100)"
      using full(1) [OF mv] by simp
    then have "score_add (?sv mv) (?w mv) \<le> Fin (- 100 + ?w mv)"
      by (rule score_add_bounds)
    with lo have "Fin (2 / 10) \<le> Fin (- 100 + ?w mv)"
      by (rule order_trans)
    then show False
      using range(2) [OF mv] by simp
  qed
  then show ?thesis
    using full(2) [OF mv] by simp
qed

text \<open>
  At the hard level the move chosen does not let 'X' win on the next ply when some
  move does not.
\<close>

lemma hard_move_no_next_win:
  assumes ai: "max_depth ai = 9" "randomization ai = 0" "use_position_weights ai"
    and v: "valid_board (board g)" and cw: "check_winner g = Inr (False, None)"
    and u: "0 \<le> u" and m: "get_ai_move ai g u k = Inr (Some mv)"
    and e: "mv' \<in> set (get_valid_moves g)" "\<not> x_wins_next (place g mv' PLAYER_O)"
  shows "\<not> x_wins_next (place g mv PLAYER_O)"
proof
  assume x: "x_wins_next (place g mv PLAYER_O)"
  let ?sv = "\<lambda>mv. search_value ai (place g mv PLAYER_O) 9 False"
  let ?w = "\<lambda>mv. rat_of_int (POSITION_WEIGHTS ! nat mv) * (1 / 10)"
  have nr: "\<not> u < randomization ai" using u ai(2) by simp
  have mv: "mv \<in> set (get_valid_moves g)"
    and best: "\<forall>mv' \<in> set (get_valid_moves g).
        score_add (?sv mv') (?w mv') \<le> score_add (?sv mv) (?w mv)"
    using get_ai_move_best [OF v ai(3) nr m] by (simp_all add: ai(1))
  have range: "2 / 10 \<le> ?w x" "?w x \<le> 4 / 10" if "x \<in> set (get_valid_moves g)" for x
  proof -
    have "0 \<le> x" "x < 9"
      using that v by (auto simp: get_valid_moves_iff valid_board_def)
    from POSITION_WEIGHTS_range [OF this] show "2 / 10 \<le> ?w x" "?w x \<le> 4 / 10"
      by simp_all
  qed
  have v': "valid_board (board (place g x PLAYER_O))" for x
    using valid_board_place [OF v] by simp
  have "empties (board (place g mv' PLAYER_O)) \<le> 8"
    using empties_place_Suc [OF v e(1), of PLAYER_O] empties_le_9 [OF v] by simp
  then have "Fin (- 107) \<le> ?sv mv'"
    using no_x_win_next_value [OF v' _ O_move_no_X_win [OF v cw] e(2)] by simp
  then have "Fin (- 107 + ?w mv') \<le> score_add (?sv mv') (?w mv')"
    by (rule score_add_bounds)
  moreover have "Fin (- 107 + 2 / 10) \<le> Fin (- 107 + ?w mv')"
    using range(1) [OF e(1)] by simp
  moreover note best [rule_format, OF e(1)]
  ultimately have lo: "Fin (- 107 + 2 / 10) \<le> score_add (?sv mv) (?w mv)"
    by (blast intro: order_trans)
  have "?sv mv \<le> Fin (- 108)"
    using x_wins_next_value [OF v' x] .
  then have "score_add (?sv mv) (?w mv) \<le> Fin (- 108 + ?w mv)"
    by (rule score_add_bounds)
  with lo have "Fin (- 107 + 2 / 10) \<le> Fin (- 108 + ?w mv)"
    by (rule order_trans)
  then show False
    using range(2) [OF mv] by simp
qed

lemma ai_play_safe:
  assumes ai: "max_depth ai = 9" "randomization ai = 0" "use_position_weights ai"
    and "ai_play ai g p"
  shows "valid_board (board g) \<and> o_safe g p"
  using assms(4)
proof (induction rule: ai_play.induct)
  case start
  show ?case using valid_board_start o_safe_start by simp
next
  case (human g position g')
  then have v: "valid_board (board g)" and s: "o_safe g PLAYER_X" by simp_all
  note mm = make_move_place [OF v human.hyps(3)]
  have "o_safe (place g position PLAYER_X) PLAYER_O"
    using s o_safe_X_iff [OF human.hyps(2)] mm(2) by blast
  then show ?case
    using mm(1) valid_board_place [OF v, of PLAYER_X position] by simp
next
  case (machine g u k position g')
  then have v: "valid_board (board g)" and s: "o_safe g PLAYER_O" by simp_all
  note mm = make_move_place [OF v machine.hyps(6)]
  have "o_safe (place g position PLAYER_O) PLAYER_X"
    by (rule hard_move_safe [OF ai v machine.hyps(2,3,5) s])
  then show ?case
    using mm(1) valid_board_place [OF v, of PLAYER_O position] by simp
qed

lemma o_safe_not_lost:
  assumes "o_safe g p"
  shows "check_winner g \<noteq> Inr (True, Some PLAYER_X)"
  using assms by cases auto

lemma get_ai_move_moves:
  assumes "valid_board (board g)" "check_winner g = Inr (False, None)"
  shows "\<exists>mv. get_ai_move self g u k = Inr (Some mv)
           \<and> make_move g mv [PLAYER_O] = Inr (True, place g mv PLAYER_O)"
proof -
  note r = get_ai_move_result [OF assms(1), of self u k]
  have ne: "get_valid_moves g \<noteq> []"
    using not_over_has_move(2) [OF assms] .
  obtain res where res: "get_ai_move self g u k = Inr res"
    using r by blast
  have "res \<noteq> None"
    using r res ne by auto
  then obtain mv where mv: "res = Some mv" by auto
  then have "mv \<in> set (get_valid_moves g)"
    using r res by auto
  from place_make_move [OF assms(1) this, of PLAYER_O] res mv show ?thesis
    by auto
qed

text \<open>
  Claim C1. Let \<open>ai\<close> be the search at the hard level (depth 9, randomization 0,
  position weights). On every board reachable in legal alternating play from the empty
  board on which the game is not over and 'O' is to move, \<open>get_ai_move\<close> returns a move
  for every outcome of the random draws, and when some move of 'O' leaves 'X' without
  a win on the next ply, the move returned is such a move. In every game that the
  human 'X' starts and in which 'O' plays the moves of \<open>get_ai_move\<close>, 'X' is never
  the winner, and \<open>get_ai_move\<close> has a move to make whenever it is asked.
\<close>

theorem hard_never_loses:
  assumes "MinimaxAI_init ''hard'' = Inr ai"
  shows "(\<forall>g u k. reachable g PLAYER_O \<and> check_winner g = Inr (False, None) \<longrightarrow>
            (\<exists>mv. get_ai_move ai g u k = Inr (Some mv)))
       \<and> (\<forall>g u k mv. reachable g PLAYER_O \<and> check_winner g = Inr (False, None) \<and> 0 \<le> u
              \<and> get_ai_move ai g u k = Inr (Some mv)
              \<and> (\<exists>mv' \<in> set (get_valid_moves g). \<not> x_wins_next (place g mv' PLAYER_O))
            \<longrightarrow> make_move g mv [PLAYER_O] = Inr (True, place g mv PLAYER_O)
                \<and> \<not> x_wins_next (place g mv PLAYER_O))
       \<and> (\<forall>g p. ai_play ai g p \<longrightarrow> check_winner g \<noteq> Inr (True, Some PLAYER_X))
       \<and> (\<forall>g u k. ai_play ai g PLAYER_O \<and> check_winner g = Inr (False, None) \<longrightarrow>
            (\<exists>mv. get_ai_move ai g u k = Inr (Some mv)
               \<and> make_move g mv [PLAYER_O] = Inr (True, place g mv PLAYER_O)))"
proof -
  note ai = hard_parameters [OF assms]
  have 1: "\<exists>mv. get_ai_move ai g u k = Inr (Some mv)"
    if "reachable g PLAYER_O" "check_winner g = Inr (False, None)" for g u k
    using get_ai_move_moves [OF reachable_valid [OF that(1)] that(2), of ai u k] by blast
  have 2: "make_move g mv [PLAYER_O] = Inr (True, place g mv PLAYER_O)
      \<and> \<not> x_wins_next (place g mv PLAYER_O)"
    if h: "reachable g PLAYER_O" "check_winner g = Inr (False, None)" "0 \<le> u"
      "get_ai_move ai g u k = Inr (Some mv)"
      "\<exists>mv' \<in> set (get_valid_moves g). \<not> x_wins_next (place g mv' PLAYER_O)"
    for g u k mv
  proof -
    note v = reachable_valid [OF h(1)]
    obtain mv' where mv': "mv' \<in> set (get_valid_moves g)"
      "\<not> x_wins_next (place g mv' PLAYER_O)"
      using h(5) by blast
    have "\<not> x_wins_next (place g mv PLAYER_O)"
      by (rule hard_move_no_next_win [OF ai v h(2,3,4) mv'])
    moreover have "mv \<in> set (get_valid_moves g)"
      using get_ai_move_result [OF v, of ai u k] h(4) by blast
    then have "make_move g mv [PLAYER_O] = Inr (True, place g mv PLAYER_O)"
      using place_make_move [OF v, of mv PLAYER_O] by simp
    ultimately show ?thesis by simp
  qed
  have 3: "check_winner g \<noteq> Inr (True, Some PLAYER_X)" if "ai_play ai g p" for g p
    using ai_play_safe [OF ai that] o_safe_not_lost by blast
  have 4: "\<exists>mv. get_ai_move ai g u k = Inr (Some mv)
               \<and> make_move g mv [PLAYER_O] = Inr (True, place g mv PLAYER_O)"
    if "ai_play ai g PLAYER_O" "check_winner g = Inr (False, None)" for g u k
    using get_ai_move_moves [OF _ that(2), of ai u k] ai_play_safe [OF ai that(1)] by blast
  show ?thesis
    using 1 2 3 4 by blast
qed

theorem hard_never_loses_witness:
  "MinimaxAI_init ''hard'' = Inr \<lparr>difficulty = ''hard'', max_depth = 9, randomization = 0,
     use_position_weights = True\<rparr>
   \<and> reachable \<lparr>board = ''XO  O  XX''\<rparr> PLAYER_O
   \<and> check_winner \<lparr>board = ''XO  O  XX''\<rparr> = Inr (False, None)
   \<and> get_ai_move \<lparr>difficulty = ''hard'', max_depth = 9, randomization = 0,
        use_position_weights = True\<rparr> \<lparr>board = ''XO  O  XX''\<rparr> 0 0 = Inr (Some 6)
   \<and> x_wins_next (place \<lparr>board = ''XO  O  XX''\<rparr> 2 PLAYER_O)
   \<and> make_move \<lparr>board = ''XO  O  XX''\<rparr> 6 [PLAYER_O]
        = Inr (True, place \<lparr>board = ''XO  O  XX''\<rparr> 6 PLAYER_O)
   \<and> \<not> x_wins_next (place \<lparr>board = ''XO  O  XX''\<rparr> 6 PLAYER_O)
   \<and> ai_play \<lparr>difficulty = ''hard'', max_depth = 9, randomization = 0,
        use_position_weights = True\<rparr> \<lparr>board = ''X        ''\<rparr> PLAYER_O
   \<and> check_winner \<lparr>board = ''X        ''\<rparr> \<noteq> Inr (True, Some PLAYER_X)
   \<and> (\<exists>mv. get_ai_move \<lparr>difficulty = ''hard'', max_depth = 9, randomization = 0,
          use_position_weights = True\<rparr> \<lparr>board = ''X        ''\<rparr> 0 0 = Inr (Some mv)
        \<and> make_move \<lparr>board = ''X        ''\<rparr> mv [PLAYER_O]
            = Inr (True, place \<lparr>board = ''X        ''\<rparr> mv PLAYER_O))"
proof -
  let ?H = "\<lparr>difficulty = ''hard'', max_depth = 9, randomization = 0,
     use_position_weights = True\<rparr>"
  let ?G = "\<lparr>board = ''XO  O  XX''\<rparr>"
  have init: "MinimaxAI_init ''hard'' = Inr ?H"
    by (rule MinimaxAI_init_hard)
  have oX: "other PLAYER_X = PLAYER_O" and oO: "other PLAYER_O = PLAYER_X"
    by (simp_all add: other_def PLAYER_X_def PLAYER_O_def)
  have c0: "check_winner \<lparr>board = replicate 9 EMPTY\<rparr> = Inr (False, None)"
    and m0: "make_move \<lparr>board = replicate 9 EMPTY\<rparr> 0 [PLAYER_X]
        = Inr (True, \<lparr>board = ''X        ''\<rparr>)"
    and c1: "check_winner \<lparr>board = ''X        ''\<rparr> = Inr (False, None)"
    and m1: "make_move \<lparr>board = ''X        ''\<rparr> 4 [PLAYER_O]
        = Inr (True, \<lparr>board = ''X   O    ''\<rparr>)"
    and c2: "check_winner \<lparr>board = ''X   O    ''\<rparr> = Inr (False, None)"
    and m2: "make_move \<lparr>board = ''X   O    ''\<rparr> 8 [PLAYER_X]
        = Inr (True, \<lparr>board = ''X   O   X''\<rparr>)"
    and c3: "check_winner \<lparr>board = ''X   O   X''\<rparr> = Inr (False, None)"
    and m3: "make_move \<lparr>board = ''X   O   X''\<rparr> 1 [PLAYER_O]
        = Inr (True, \<lparr>board = ''XO  O   X''\<rparr>)"
    and c4: "check_winner \<lparr>board = ''XO  O   X''\<rparr> = Inr (False, None)"
    and m4: "make_move \<lparr>board = ''XO  O   X''\<rparr> 7 [PLAYER_X] = Inr (True, ?G)"
    and c5: "check_winner ?G = Inr (False, None)"
    by code_simp+
  have r1: "reachable \<lparr>board = ''X        ''\<rparr> PLAYER_O"
    using reachable.move [OF reachable.start c0 m0] by (simp only: oX)
  have r2: "reachable \<lparr>board = ''X   O    ''\<rparr> PLAYER_X"
    using reachable.move [OF r1 c1 m1] by (simp only: oO)
  have r3: "reachable \<lparr>board = ''X   O   X''\<rparr> PLAYER_O"
    using reachable.move [OF r2 c2 m2] by (simp only: oX)
  have r4: "reachable \<lparr>board = ''XO  O   X''\<rparr> PLAYER_X"
    using reachable.move [OF r3 c3 m3] by (simp only: oO)
  have r5: "reachable ?G PLAYER_O"
    using reachable.move [OF r4 c4 m4] by (simp only: oX)
  have mv: "get_ai_move ?H ?G 0 0 = Inr (Some 6)"
    and bad: "x_wins_next (place ?G 2 PLAYER_O)"
    and ok: "6 \<in> set (get_valid_moves ?G)" "\<not> x_wins_next (place ?G 6 PLAYER_O)"
    by code_simp+
  have u: "(0::rat) \<le> 0" by simp
  note t = hard_never_loses [OF init]
  have ex: "\<exists>mv' \<in> set (get_valid_moves ?G). \<not> x_wins_next (place ?G mv' PLAYER_O)"
    using ok by (rule bexI [rotated])
  note a = t [THEN conjunct2, THEN conjunct1, rule_format,
      OF conjI [OF r5 conjI [OF c5 conjI [OF u conjI [OF mv ex]]]]]
  have p1: "ai_play ?H \<lparr>board = ''X        ''\<rparr> PLAYER_O"
    by (rule ai_play.human [OF ai_play.start c0 m0])
  note b = t [THEN conjunct2, THEN conjunct2, THEN conjunct1, rule_format, OF p1]
  note c = t [THEN conjunct2, THEN conjunct2, THEN conjunct2, rule_format,
      OF conjI [OF p1 c1], of 0 0]
  show ?thesis
    by (intro conjI) (fact init r5 c5 mv bad a [THEN conjunct1] a [THEN conjunct2] p1 b c)+
qed

end
